theory Spec2Isabelle
  imports Complex_Main "HOL-Library.Multiset"
begin

section \<open>JavaScript values used by the graph visualizer\<close>

text \<open>
  A JavaScript number is modelled as an exact rational extended with the two infinities and
  NaN. IEEE-754 rounding and overflow are not modelled: the model agrees with the program
  wherever every intermediate value is exactly representable (in particular on integers of
  magnitude below \<open>2^53\<close>). Negative zero is identified with zero.
\<close>

datatype jsnum = Fin rat | PInf | NInf | NaN

fun isFinite :: "jsnum \<Rightarrow> bool" where
  "isFinite (Fin _) = True"
| "isFinite _ = False"

fun js_add :: "jsnum \<Rightarrow> jsnum \<Rightarrow> jsnum" where
  "js_add (Fin a) (Fin b) = Fin (a + b)"
| "js_add NaN _ = NaN"
| "js_add _ NaN = NaN"
| "js_add PInf NInf = NaN"
| "js_add NInf PInf = NaN"
| "js_add PInf _ = PInf"
| "js_add _ PInf = PInf"
| "js_add NInf _ = NInf"
| "js_add _ NInf = NInf"

fun js_neg :: "jsnum \<Rightarrow> jsnum" where
  "js_neg (Fin a) = Fin (- a)"
| "js_neg PInf = NInf"
| "js_neg NInf = PInf"
| "js_neg NaN = NaN"

definition js_sub :: "jsnum \<Rightarrow> jsnum \<Rightarrow> jsnum" where
  "js_sub a b = js_add a (js_neg b)"

text \<open>The product \<open>sign * x\<close> with \<open>sign\<close> one of \<open>1\<close> and \<open>-1\<close>.\<close>

definition js_mul_sign :: "int \<Rightarrow> jsnum \<Rightarrow> jsnum" where
  "js_mul_sign sign x = (if sign < 0 then js_neg x else x)"

text \<open>The relational operators: every comparison with NaN is false.\<close>

fun js_lt :: "jsnum \<Rightarrow> jsnum \<Rightarrow> bool" where
  "js_lt (Fin a) (Fin b) = (a < b)"
| "js_lt NaN _ = False"
| "js_lt _ NaN = False"
| "js_lt _ NInf = False"
| "js_lt PInf _ = False"
| "js_lt NInf _ = True"
| "js_lt _ PInf = True"

definition js_gt :: "jsnum \<Rightarrow> jsnum \<Rightarrow> bool" where
  "js_gt a b = js_lt b a"

fun js_le :: "jsnum \<Rightarrow> jsnum \<Rightarrow> bool" where
  "js_le NaN _ = False"
| "js_le _ NaN = False"
| "js_le a b = (\<not> js_lt b a)"

text \<open>\<open>Math.trunc\<close>: rounding toward zero.\<close>

fun Math_trunc :: "jsnum \<Rightarrow> jsnum" where
  "Math_trunc (Fin q) = Fin (of_int (if 0 \<le> q then \<lfloor>q\<rfloor> else \<lceil>q\<rceil>))"
| "Math_trunc x = x"

subsection \<open>Strings\<close>

text \<open>
  Strings are lists of 8-bit characters, read as the UTF-16 code units below 256. The
  white space of \<open>String.prototype.trim\<close>, of the regular expression class \<open>\s\<close> and of
  the numeric-string grammar is, in that range: TAB, LF, VT, FF, CR, SPACE and NBSP.
\<close>

definition is_ws :: "char \<Rightarrow> bool" where
  "is_ws c = (c = CHR 0x09 \<or> c = CHR 0x0A \<or> c = CHR 0x0B \<or> c = CHR 0x0C
              \<or> c = CHR 0x0D \<or> c = CHR 0x20 \<or> c = CHR 0xA0)"

definition trim :: "string \<Rightarrow> string" where
  "trim s = rev (dropWhile is_ws (rev (dropWhile is_ws s)))"

text \<open>\<open>s.split(c)\<close> for a one-character separator.\<close>

fun split_char :: "char \<Rightarrow> string \<Rightarrow> string list" where
  "split_char c [] = [[]]"
| "split_char c (x # xs) =
     (if x = c then [] # split_char c xs
      else (case split_char c xs of [] \<Rightarrow> [[x]] | y # ys \<Rightarrow> (x # y) # ys))"

text \<open>\<open>s.split(/\s+/)\<close>: the separators are the maximal runs of white space.\<close>

function split_ws :: "string \<Rightarrow> string list" where
  "split_ws [] = [[]]"
| "split_ws (x # xs) =
     (if is_ws x then [] # split_ws (dropWhile is_ws xs)
      else (case split_ws xs of [] \<Rightarrow> [[x]] | y # ys \<Rightarrow> (x # y) # ys))"
  by pat_completeness auto
termination
  by (relation "measure length") (auto simp: le_imp_less_Suc length_dropWhile_le)

text \<open>\<open>.filter(Boolean)\<close> on an array of strings keeps the non-empty ones.\<close>

definition filter_Boolean :: "string list \<Rightarrow> string list" where
  "filter_Boolean xs = filter (\<lambda>t. t \<noteq> []) xs"

text \<open>The order of strings used by \<open>Array.prototype.sort\<close>: code unit by code unit.\<close>

fun str_less :: "string \<Rightarrow> string \<Rightarrow> bool" where
  "str_less [] [] = False"
| "str_less [] (y # ys) = True"
| "str_less (x # xs) [] = False"
| "str_less (x # xs) (y # ys) =
     (if (of_char x :: nat) < of_char y then True
      else if (of_char y :: nat) < of_char x then False
      else str_less xs ys)"

subsection \<open>Numeric strings\<close>

definition digit_value :: "char \<Rightarrow> nat option" where
  "digit_value c =
     (let n = (of_char c :: nat) in
      if 48 \<le> n \<and> n \<le> 57 then Some (n - 48)
      else if 97 \<le> n \<and> n \<le> 102 then Some (n - 87)
      else if 65 \<le> n \<and> n \<le> 70 then Some (n - 55)
      else None)"

definition is_digit_in :: "nat \<Rightarrow> char \<Rightarrow> bool" where
  "is_digit_in radix c = (case digit_value c of None \<Rightarrow> False | Some d \<Rightarrow> d < radix)"

definition digits_value :: "nat \<Rightarrow> string \<Rightarrow> nat" where
  "digits_value radix ds = foldl (\<lambda>a c. a * radix + (case digit_value c of None \<Rightarrow> 0 | Some d \<Rightarrow> d)) 0 ds"

text \<open>
  \<open>parseInt(s, radix)\<close> for a radix from 2 to 36 restricted to the digits \<open>0-9a-f\<close>
  (the program calls it with 2 and 16 only): leading white space is skipped, a sign is
  read, the prefix \<open>0x\<close> is removed only when the radix is 16, and the longest prefix of
  digits of that radix is converted; with no such digit the result is NaN.
\<close>

definition parseInt :: "string \<Rightarrow> nat \<Rightarrow> jsnum" where
  "parseInt s radix =
     (let t = dropWhile is_ws s;
          sign = (case t of c # _ \<Rightarrow> if c = CHR ''-'' then (-1::int) else 1 | [] \<Rightarrow> 1);
          t1 = (case t of c # r \<Rightarrow> if c = CHR ''-'' \<or> c = CHR ''+'' then r else t | [] \<Rightarrow> t);
          t2 = (case t1 of
                  c0 # c1 # r \<Rightarrow>
                    if radix = 16 \<and> c0 = CHR ''0'' \<and> (c1 = CHR ''x'' \<or> c1 = CHR ''X'')
                    then r else t1
                | _ \<Rightarrow> t1);
          ds = takeWhile (is_digit_in radix) t2
      in if ds = [] then NaN else js_mul_sign sign (Fin (of_nat (digits_value radix ds))))"

text \<open>The regular expressions \<open>/^0x[0-9a-f]+$/i\<close> and \<open>/^0b[01]+$/i\<close>.\<close>

definition hex_re :: "string \<Rightarrow> bool" where
  "hex_re s = (case s of
      c0 # c1 # r \<Rightarrow> c0 = CHR ''0'' \<and> (c1 = CHR ''x'' \<or> c1 = CHR ''X'')
                     \<and> r \<noteq> [] \<and> list_all (is_digit_in 16) r
    | _ \<Rightarrow> False)"

definition bin_re :: "string \<Rightarrow> bool" where
  "bin_re s = (case s of
      c0 # c1 # r \<Rightarrow> c0 = CHR ''0'' \<and> (c1 = CHR ''b'' \<or> c1 = CHR ''B'')
                     \<and> r \<noteq> [] \<and> list_all (is_digit_in 2) r
    | _ \<Rightarrow> False)"

text \<open>
  \<open>Number(s)\<close> on a string, after the grammar \<open>StringNumericLiteral\<close> of ECMAScript:
  optional white space around either a signed decimal literal (digits, fraction,
  exponent, or \<open>Infinity\<close>) or an unsigned binary, octal or hexadecimal integer literal;
  the empty string is 0 and anything else is NaN.
\<close>

definition all_digits :: "nat \<Rightarrow> string \<Rightarrow> bool" where
  "all_digits radix ds = (ds \<noteq> [] \<and> list_all (is_digit_in radix) ds)"

definition ExponentPart_opt :: "string \<Rightarrow> int option" where
  "ExponentPart_opt s = (case s of
      [] \<Rightarrow> Some 0
    | c # r \<Rightarrow>
        if c = CHR ''e'' \<or> c = CHR ''E'' then
          (case r of
             [] \<Rightarrow> None
           | d # ds \<Rightarrow>
               if d = CHR ''+'' then
                 (if all_digits 10 ds then Some (int (digits_value 10 ds)) else None)
               else if d = CHR ''-'' then
                 (if all_digits 10 ds then Some (- int (digits_value 10 ds)) else None)
               else (if all_digits 10 r then Some (int (digits_value 10 r)) else None))
        else None)"

definition scale10 :: "rat \<Rightarrow> int \<Rightarrow> rat" where
  "scale10 m e = (if 0 \<le> e then m * 10 ^ nat e else m / 10 ^ nat (- e))"

definition StrUnsignedDecimalLiteral :: "string \<Rightarrow> jsnum option" where
  "StrUnsignedDecimalLiteral s =
     (if s = ''Infinity'' then Some PInf
      else
        let ip = takeWhile (is_digit_in 10) s; r = dropWhile (is_digit_in 10) s in
        (case r of
           c # r2 \<Rightarrow>
             if c = CHR ''.'' then
               (let fp = takeWhile (is_digit_in 10) r2; r3 = dropWhile (is_digit_in 10) r2 in
                if ip = [] \<and> fp = [] then None
                else (case ExponentPart_opt r3 of
                        None \<Rightarrow> None
                      | Some e \<Rightarrow>
                          Some (Fin (scale10 (of_nat (digits_value 10 ip)
                             + of_nat (digits_value 10 fp) / 10 ^ length fp) e))))
             else if ip = [] then None
             else (case ExponentPart_opt r of
                     None \<Rightarrow> None
                   | Some e \<Rightarrow> Some (Fin (scale10 (of_nat (digits_value 10 ip)) e)))
         | [] \<Rightarrow> if ip = [] then None else Some (Fin (of_nat (digits_value 10 ip)))))"

definition NonDecimalIntegerLiteral :: "string \<Rightarrow> jsnum option" where
  "NonDecimalIntegerLiteral s = (case s of
      c0 # c1 # r \<Rightarrow>
        if c0 \<noteq> CHR ''0'' then None
        else if (c1 = CHR ''x'' \<or> c1 = CHR ''X'') \<and> all_digits 16 r
          then Some (Fin (of_nat (digits_value 16 r)))
        else if (c1 = CHR ''o'' \<or> c1 = CHR ''O'') \<and> all_digits 8 r
          then Some (Fin (of_nat (digits_value 8 r)))
        else if (c1 = CHR ''b'' \<or> c1 = CHR ''B'') \<and> all_digits 2 r
          then Some (Fin (of_nat (digits_value 2 r)))
        else None
    | _ \<Rightarrow> None)"

definition Number_of_string :: "string \<Rightarrow> jsnum" where
  "Number_of_string s =
     (let t = trim s in
      case t of
        [] \<Rightarrow> Fin 0
      | c # r \<Rightarrow>
          if c = CHR ''+'' then
            (case StrUnsignedDecimalLiteral r of None \<Rightarrow> NaN | Some v \<Rightarrow> v)
          else if c = CHR ''-'' then
            (case StrUnsignedDecimalLiteral r of None \<Rightarrow> NaN | Some v \<Rightarrow> js_neg v)
          else
            (case NonDecimalIntegerLiteral t of
               Some v \<Rightarrow> v
             | None \<Rightarrow> (case StrUnsignedDecimalLiteral t of None \<Rightarrow> NaN | Some v \<Rightarrow> v)))"

section \<open>Errors and JSON values\<close>

text \<open>
  The errors of the program: \<open>Error\<close> is the \<open>new Error(message)\<close> that the parser
  throws, \<open>SyntaxError\<close> is thrown by \<open>JSON.parse\<close>, \<open>TypeError\<close> by the runtime
  (calling what is not a function, iterating what is not iterable). \<open>Unmodelled\<close> marks
  the inputs that the embedding does not cover: a JSON escape \<open>\uXXXX\<close> above 255, and
  the conversion to a string of a number that is not an integer below \<open>10^21\<close> in
  magnitude.
\<close>

datatype error = Error string | SyntaxError | TypeError string | Unmodelled

datatype json = JNull | JBool bool | JNum jsnum | JStr string
  | JArr "json list" | JObj "(string \<times> json) list"

section \<open>The two numeric coercions\<close>

text \<open>
  \<open>toNumberIfPossible\<close> of \<open>graphParser.js\<close>, and \<open>parseSingleNumberToken\<close> of
  \<open>calculators.js\<close> on a string argument. \<open>None\<close> is the \<open>null\<close> that both return on
  failure.
\<close>

definition toNumberIfPossible :: "json \<Rightarrow> jsnum option" where
  "toNumberIfPossible val = (case val of
      JNum n \<Rightarrow> Some n
    | JStr v \<Rightarrow>
        (let s = trim v in
         if s = [] then None
         else if hex_re s then Some (parseInt s 16)
         else if bin_re s then Some (parseInt s 2)
         else let n = Number_of_string s in
              if isFinite n then Some n else None)
    | _ \<Rightarrow> None)"

definition parseSingleNumberToken :: "string \<Rightarrow> jsnum option" where
  "parseSingleNumberToken tok =
     (let s = trim tok in
      case s of
        [] \<Rightarrow> None
      | c # r \<Rightarrow>
          let sign = (if c = CHR ''-'' then (-1::int) else 1);
              unsigned = (if c = CHR ''-'' \<or> c = CHR ''+'' then r else s)
          in if hex_re unsigned then Some (js_mul_sign sign (parseInt unsigned 16))
             else if bin_re unsigned then Some (js_mul_sign sign (parseInt unsigned 2))
             else let n = Number_of_string unsigned in
                  if isFinite n then Some (js_mul_sign sign (Math_trunc n)) else None)"

section \<open>\<open>JSON.parse\<close>\<close>

text \<open>The white space of JSON is SPACE, TAB, LF and CR only.\<close>

definition json_ws :: "char \<Rightarrow> bool" where
  "json_ws c = (c = CHR 0x20 \<or> c = CHR 0x09 \<or> c = CHR 0x0A \<or> c = CHR 0x0D)"

definition hex4 :: "string \<Rightarrow> nat option" where
  "hex4 s = (if length s = 4 \<and> list_all (is_digit_in 16) s
             then Some (digits_value 16 s) else None)"

definition json_escape :: "char \<Rightarrow> char option" where
  "json_escape e =
     (if e = CHR 0x22 then Some (CHR 0x22)
      else if e = CHR 0x5C then Some (CHR 0x5C)
      else if e = CHR ''/'' then Some (CHR ''/'')
      else if e = CHR ''b'' then Some (CHR 0x08)
      else if e = CHR ''f'' then Some (CHR 0x0C)
      else if e = CHR ''n'' then Some (CHR 0x0A)
      else if e = CHR ''r'' then Some (CHR 0x0D)
      else if e = CHR ''t'' then Some (CHR 0x09)
      else None)"

text \<open>The characters of a JSON string after the opening quote, up to the closing one.\<close>

function json_chars :: "string \<Rightarrow> error + (string \<times> string)" where
  "json_chars [] = Inl SyntaxError"
| "json_chars (c # r) =
     (if c = CHR 0x22 then Inr ([], r)
      else if c = CHR 0x5C then
        (case r of
           [] \<Rightarrow> Inl SyntaxError
         | e # r' \<Rightarrow>
             if e = CHR ''u'' then
               (case hex4 (take 4 r') of
                  None \<Rightarrow> Inl SyntaxError
                | Some n \<Rightarrow>
                    if 256 \<le> n then Inl Unmodelled
                    else (case json_chars (drop 4 r') of
                            Inl err \<Rightarrow> Inl err
                          | Inr (cs, rest) \<Rightarrow> Inr (char_of n # cs, rest)))
             else
               (case json_escape e of
                  None \<Rightarrow> Inl SyntaxError
                | Some x \<Rightarrow>
                    (case json_chars r' of
                       Inl err \<Rightarrow> Inl err
                     | Inr (cs, rest) \<Rightarrow> Inr (x # cs, rest))))
      else if (of_char c :: nat) < 32 then Inl SyntaxError
      else (case json_chars r of
              Inl err \<Rightarrow> Inl err
            | Inr (cs, rest) \<Rightarrow> Inr (c # cs, rest)))"
  by pat_completeness auto
termination
  by (relation "measure length") auto

text \<open>
  A JSON number: \<open>-? (0 | [1-9][0-9]*) (. [0-9]+)? ([eE] [+-]? [0-9]+)?\<close>. The result
  is the value and the rest of the input.
\<close>

definition json_exponent :: "string \<Rightarrow> (int \<times> string) option" where
  "json_exponent s = (case s of
      [] \<Rightarrow> Some (0, s)
    | c # r \<Rightarrow>
        if c = CHR ''e'' \<or> c = CHR ''E'' then
          (let neg = (case r of d # _ \<Rightarrow> d = CHR ''-'' | [] \<Rightarrow> False);
               r1 = (case r of d # r' \<Rightarrow> if d = CHR ''+'' \<or> d = CHR ''-'' then r' else r
                     | [] \<Rightarrow> r);
               ds = takeWhile (is_digit_in 10) r1
           in if ds = [] then None
              else Some ((if neg then - int (digits_value 10 ds) else int (digits_value 10 ds)),
                         dropWhile (is_digit_in 10) r1))
        else Some (0, s))"

definition json_number :: "string \<Rightarrow> (jsnum \<times> string) option" where
  "json_number s =
     (let neg = (case s of c # _ \<Rightarrow> c = CHR ''-'' | [] \<Rightarrow> False);
          s1 = (if neg then tl s else s);
          ip = takeWhile (is_digit_in 10) s1;
          r = dropWhile (is_digit_in 10) s1
      in if ip = [] \<or> (hd ip = CHR ''0'' \<and> length ip > 1) then None
         else
           (let has_frac = (case r of c # _ \<Rightarrow> c = CHR ''.'' | [] \<Rightarrow> False);
                fp = (if has_frac then takeWhile (is_digit_in 10) (tl r) else []);
                r2 = (if has_frac then dropWhile (is_digit_in 10) (tl r) else r)
            in if has_frac \<and> fp = [] then None
               else (case json_exponent r2 of
                       None \<Rightarrow> None
                     | Some (e, rest) \<Rightarrow>
                         (let m = scale10 (of_nat (digits_value 10 ip)
                                    + of_nat (digits_value 10 fp) / 10 ^ length fp) e
                          in Some (Fin (if neg then - m else m), rest)))))"

definition json_literal :: "string \<Rightarrow> (json \<times> string) option" where
  "json_literal s =
     (if take 4 s = ''true'' then Some (JBool True, drop 4 s)
      else if take 5 s = ''false'' then Some (JBool False, drop 5 s)
      else if take 4 s = ''null'' then Some (JNull, drop 4 s)
      else None)"

text \<open>
  The value grammar, by recursive descent. The first argument bounds the depth of the
  recursion; every level consumes a character, so \<open>JSON_parse\<close> starts it with more than
  twice the length of the text and the bound is never reached.
\<close>

fun json_value :: "nat \<Rightarrow> string \<Rightarrow> error + (json \<times> string)"
  and json_elements :: "nat \<Rightarrow> string \<Rightarrow> error + (json list \<times> string)"
  and json_members :: "nat \<Rightarrow> string \<Rightarrow> error + ((string \<times> json) list \<times> string)"
where
  "json_value 0 s = Inl SyntaxError"
| "json_value (Suc n) s =
     (case dropWhile json_ws s of
        [] \<Rightarrow> Inl SyntaxError
      | c # r \<Rightarrow>
          if c = CHR ''['' then
            (case dropWhile json_ws r of
               [] \<Rightarrow> Inl SyntaxError
             | c' # r' \<Rightarrow>
                 if c' = CHR '']'' then Inr (JArr [], r')
                 else (case json_elements n r of
                         Inl err \<Rightarrow> Inl err
                       | Inr (vs, rest) \<Rightarrow> Inr (JArr vs, rest)))
          else if c = CHR ''{'' then
            (case dropWhile json_ws r of
               [] \<Rightarrow> Inl SyntaxError
             | c' # r' \<Rightarrow>
                 if c' = CHR ''}'' then Inr (JObj [], r')
                 else (case json_members n r of
                         Inl err \<Rightarrow> Inl err
                       | Inr (ms, rest) \<Rightarrow> Inr (JObj ms, rest)))
          else if c = CHR 0x22 then
            (case json_chars r of
               Inl err \<Rightarrow> Inl err
             | Inr (cs, rest) \<Rightarrow> Inr (JStr cs, rest))
          else if c = CHR ''-'' \<or> is_digit_in 10 c then
            (case json_number (c # r) of
               None \<Rightarrow> Inl SyntaxError
             | Some (v, rest) \<Rightarrow> Inr (JNum v, rest))
          else (case json_literal (c # r) of
                  None \<Rightarrow> Inl SyntaxError
                | Some (v, rest) \<Rightarrow> Inr (v, rest)))"
| "json_elements 0 s = Inl SyntaxError"
| "json_elements (Suc n) s =
     (case json_value n s of
        Inl err \<Rightarrow> Inl err
      | Inr (v, r) \<Rightarrow>
          (case dropWhile json_ws r of
             [] \<Rightarrow> Inl SyntaxError
           | c # r' \<Rightarrow>
               if c = CHR '','' then
                 (case json_elements n r' of
                    Inl err \<Rightarrow> Inl err
                  | Inr (vs, rest) \<Rightarrow> Inr (v # vs, rest))
               else if c = CHR '']'' then Inr ([v], r')
               else Inl SyntaxError))"
| "json_members 0 s = Inl SyntaxError"
| "json_members (Suc n) s =
     (case dropWhile json_ws s of
        [] \<Rightarrow> Inl SyntaxError
      | q # r0 \<Rightarrow>
          if q \<noteq> CHR 0x22 then Inl SyntaxError
          else
            (case json_chars r0 of
               Inl err \<Rightarrow> Inl err
             | Inr (k, r1) \<Rightarrow>
                 (case dropWhile json_ws r1 of
                    [] \<Rightarrow> Inl SyntaxError
                  | col # r2 \<Rightarrow>
                      if col \<noteq> CHR '':'' then Inl SyntaxError
                      else
                        (case json_value n r2 of
                           Inl err \<Rightarrow> Inl err
                         | Inr (v, r3) \<Rightarrow>
                             (case dropWhile json_ws r3 of
                                [] \<Rightarrow> Inl SyntaxError
                              | c # r4 \<Rightarrow>
                                  if c = CHR '','' then
                                    (case json_members n r4 of
                                       Inl err \<Rightarrow> Inl err
                                     | Inr (ms, rest) \<Rightarrow> Inr ((k, v) # ms, rest))
                                  else if c = CHR ''}'' then Inr ([(k, v)], r4)
                                  else Inl SyntaxError)))))"

text \<open>
  The own properties of the object that \<open>JSON.parse\<close> builds from the members of an
  object literal, in the order of \<open>Object.keys\<close>: a repeated key keeps its first place
  and its last value, and the keys that are array indices come first, in ascending
  numeric order.
\<close>

fun put_member :: "string \<Rightarrow> json \<Rightarrow> (string \<times> json) list \<Rightarrow> (string \<times> json) list" where
  "put_member k v [] = [(k, v)]"
| "put_member k v ((k', v') # ms) =
     (if k' = k then (k, v) # ms else (k', v') # put_member k v ms)"

definition is_array_index :: "string \<Rightarrow> bool" where
  "is_array_index k =
     (k = ''0'' \<or> (all_digits 10 k \<and> hd k \<noteq> CHR ''0'' \<and> digits_value 10 k \<le> 4294967294))"

definition own_properties :: "(string \<times> json) list \<Rightarrow> (string \<times> json) list" where
  "own_properties ms =
     (let ps = foldl (\<lambda>acc (k, v). put_member k v acc) [] ms
      in sort_key (\<lambda>(k, v). digits_value 10 k) (filter (\<lambda>(k, v). is_array_index k) ps)
         @ filter (\<lambda>(k, v). \<not> is_array_index k) ps)"

fun json_normalize :: "json \<Rightarrow> json" where
  "json_normalize (JArr vs) = JArr (map json_normalize vs)"
| "json_normalize (JObj ms) =
     JObj (own_properties (map (\<lambda>(k, v). (k, json_normalize v)) ms))"
| "json_normalize v = v"

definition JSON_parse :: "string \<Rightarrow> error + json" where
  "JSON_parse text =
     (case json_value (2 * length text + 2) text of
        Inl err \<Rightarrow> Inl err
      | Inr (v, rest) \<Rightarrow>
          if dropWhile json_ws rest = [] then Inr (json_normalize v) else Inl SyntaxError)"

section \<open>Objects used as dictionaries\<close>

text \<open>
  The parser and the algorithms keep their dictionaries in plain objects created by
  \<open>{}\<close>. Reading \<open>obj[k]\<close> finds an own property, or else a property inherited from
  \<open>Object.prototype\<close> (a function, or the prototype itself for \<open>__proto__\<close>: truthy
  values that are neither arrays nor numbers), or else \<open>undefined\<close>.
\<close>

definition Object_prototype_keys :: "string list" where
  "Object_prototype_keys =
     [''constructor'', ''__defineGetter__'', ''__defineSetter__'', ''hasOwnProperty'',
      ''__lookupGetter__'', ''__lookupSetter__'', ''isPrototypeOf'',
      ''propertyIsEnumerable'', ''toString'', ''valueOf'', ''__proto__'',
      ''toLocaleString'']"

datatype 'v property = Own 'v | Inherited | Absent

definition obj_get :: "(string \<rightharpoonup> 'v) \<Rightarrow> string \<Rightarrow> 'v property" where
  "obj_get obj k = (case obj k of
      Some v \<Rightarrow> Own v
    | None \<Rightarrow> if k \<in> set Object_prototype_keys then Inherited else Absent)"

text \<open>
  \<open>obj[k] = v\<close> for a primitive \<open>v\<close> (a number or a string): the setter of \<open>__proto__\<close>
  ignores a primitive, every other key becomes an own property.
\<close>

definition obj_set :: "(string \<rightharpoonup> 'v) \<Rightarrow> string \<Rightarrow> 'v \<Rightarrow> (string \<rightharpoonup> 'v)" where
  "obj_set obj k v = (if k = ''__proto__'' then obj else obj(k \<mapsto> v))"

section \<open>The graph parser (\<open>graphParser.js\<close>)\<close>

record edge =
  edge_id :: nat
  edge_from :: string
  edge_to :: string
  edge_label :: "jsnum option"
  edge_arrows :: "string option"

text \<open>
  \<open>edge_label\<close> holds the number whose string \<open>String(w)\<close> the program stores; the
  field is absent (\<open>None\<close>) in an unweighted graph, as \<open>edge_arrows\<close> is in an
  undirected one.
\<close>

record adj_entry =
  adj_to :: string
  adj_weight :: jsnum
  adj_edgeId :: nat

record node =
  node_id :: string
  node_label :: string

record parse_state =
  adjacency :: "string \<rightharpoonup> adj_entry list"
  edgeKeyToId :: "string \<rightharpoonup> nat"
  nodesSet :: "string list"
  edgesArr :: "edge list"
  edgeIdCounter :: nat

record graph_model =
  gm_nodesArr :: "node list"
  gm_edgesArr :: "edge list"
  gm_adjacency :: "string \<rightharpoonup> adj_entry list"
  gm_edgeKeyToId :: "string \<rightharpoonup> nat"
  gm_isDirected :: bool

record options =
  opt_weighted :: bool
  opt_directed :: bool
  opt_inputMode :: string

text \<open>A \<open>Set\<close> of strings, in insertion order.\<close>

definition Set_add :: "string \<Rightarrow> string list \<Rightarrow> string list" where
  "Set_add x xs = (if x \<in> set xs then xs else xs @ [x])"

definition normalizeEdgeKey :: "string \<Rightarrow> string \<Rightarrow> bool \<Rightarrow> string" where
  "normalizeEdgeKey u v isDirected =
     (if isDirected then u @ ''->'' @ v
      else if str_less v u then v @ ''--'' @ u else u @ ''--'' @ v)"

text \<open>
  The weight argument of \<open>addEdge\<close> is \<open>undefined\<close>, or what \<open>toNumberIfPossible\<close>
  returned (a number or \<open>null\<close>); \<open>Number\<close> maps \<open>undefined\<close> to NaN and \<open>null\<close> to 0.
\<close>

datatype weight_arg = WUndefined | WNull | WNumber jsnum

fun Number_of_weight :: "weight_arg \<Rightarrow> jsnum" where
  "Number_of_weight WUndefined = NaN"
| "Number_of_weight WNull = Fin 0"
| "Number_of_weight (WNumber n) = n"

definition weight_of_coercion :: "jsnum option \<Rightarrow> weight_arg" where
  "weight_of_coercion r = (case r of None \<Rightarrow> WNull | Some n \<Rightarrow> WNumber n)"

text \<open>
  \<open>adjacency[k] = adjacency[k] || []; adjacency[k].push(entry)\<close>: an inherited
  property is truthy and has no \<open>push\<close>.
\<close>

definition adjacency_push ::
  "(string \<rightharpoonup> adj_entry list) \<Rightarrow> string \<Rightarrow> adj_entry \<Rightarrow> error + (string \<rightharpoonup> adj_entry list)"
where
  "adjacency_push adj k entry = (case obj_get adj k of
      Own l \<Rightarrow> Inr (adj(k \<mapsto> l @ [entry]))
    | Absent \<Rightarrow> Inr (adj(k \<mapsto> [entry]))
    | Inherited \<Rightarrow> Inl (TypeError ''push is not a function''))"

definition addEdge ::
  "bool \<Rightarrow> bool \<Rightarrow> parse_state \<Rightarrow> string \<Rightarrow> string \<Rightarrow> weight_arg \<Rightarrow> error + parse_state"
where
  "addEdge weighted directed st fromId toId weight =
     (let n = Number_of_weight weight;
          w = (if weighted then (if isFinite n then Some n else Some (Fin 1))
               else (if isFinite n then Some n else None));
          w1 = (case w of None \<Rightarrow> Fin 1 | Some x \<Rightarrow> x);
          edgeObj = \<lparr> edge_id = edgeIdCounter st, edge_from = fromId, edge_to = toId,
                      edge_label = (if weighted then Some w1 else None),
                      edge_arrows = (if directed then Some ''to'' else None) \<rparr>;
          edges' = edgesArr st @ [edgeObj];
          key = normalizeEdgeKey fromId toId directed;
          keys' = obj_set (edgeKeyToId st) key (edgeIdCounter st)
      in case adjacency_push (adjacency st) fromId
                \<lparr> adj_to = toId, adj_weight = w1, adj_edgeId = edgeIdCounter st \<rparr> of
           Inl err \<Rightarrow> Inl err
         | Inr adj1 \<Rightarrow>
             (case (if \<not> directed
                    then adjacency_push adj1 toId
                           \<lparr> adj_to = fromId, adj_weight = w1, adj_edgeId = edgeIdCounter st \<rparr>
                    else Inr adj1) of
                Inl err \<Rightarrow> Inl err
              | Inr adj2 \<Rightarrow>
                  Inr \<lparr> adjacency = adj2, edgeKeyToId = keys',
                        nodesSet = Set_add toId (Set_add fromId (nodesSet st)),
                        edgesArr = edges', edgeIdCounter = edgeIdCounter st + 1 \<rparr>))"

text \<open>A \<open>for ... of\<close> loop whose body may throw.\<close>

fun for_of :: "('a \<Rightarrow> 's \<Rightarrow> error + 's) \<Rightarrow> 'a list \<Rightarrow> 's \<Rightarrow> error + 's" where
  "for_of body [] st = Inr st"
| "for_of body (x # xs) st =
     (case body x st of Inl err \<Rightarrow> Inl err | Inr st' \<Rightarrow> for_of body xs st')"

subsection \<open>Plain-text mode\<close>

definition parse_neighbor_token ::
  "bool \<Rightarrow> bool \<Rightarrow> string \<Rightarrow> string \<Rightarrow> parse_state \<Rightarrow> error + parse_state"
where
  "parse_neighbor_token weighted directed from tok st =
     (if tok = [] then Inr st
      else if CHR ''-'' \<in> set tok then
        (case split_char (CHR ''-'') tok of
           vRaw # wRaw # _ \<Rightarrow>
             addEdge weighted directed st from (trim vRaw)
               (WNumber (case toNumberIfPossible (JStr wRaw) of None \<Rightarrow> Fin 1 | Some n \<Rightarrow> n))
         | _ \<Rightarrow> Inl (TypeError ''undefined has no properties''))
      else addEdge weighted directed st from (trim tok) WUndefined)"

definition parse_line :: "bool \<Rightarrow> bool \<Rightarrow> string \<Rightarrow> parse_state \<Rightarrow> error + parse_state" where
  "parse_line weighted directed line st =
     (if CHR '':'' \<in> set line then
        (case split_char (CHR '':'') line of
           nodePart # neighborsPart # _ \<Rightarrow>
             (let from = trim nodePart;
                  st1 = st\<lparr> nodesSet := Set_add from (nodesSet st) \<rparr>;
                  neighbors = filter_Boolean (split_ws (trim neighborsPart))
              in for_of (parse_neighbor_token weighted directed from) neighbors st1)
         | _ \<Rightarrow> Inl (TypeError ''undefined has no properties''))
      else
        (let parts = filter_Boolean (split_ws line) in
         case parts of
           u # v # rest \<Rightarrow>
             addEdge weighted directed st u v
               (case rest of
                  [] \<Rightarrow> WUndefined
                | wRaw # _ \<Rightarrow> weight_of_coercion (toNumberIfPossible (JStr wRaw)))
         | _ \<Rightarrow> Inr st))"

definition parse_plain :: "bool \<Rightarrow> bool \<Rightarrow> string \<Rightarrow> parse_state \<Rightarrow> error + parse_state" where
  "parse_plain weighted directed rawText st =
     (let lines = filter (\<lambda>l. l \<noteq> []) (map trim (split_char (CHR 0x0A) rawText))
      in for_of (parse_line weighted directed) lines st)"

subsection \<open>Array mode\<close>

text \<open>\<open>String(v)\<close> for a value that \<open>JSON.parse\<close> returned.\<close>

definition digit_char :: "nat \<Rightarrow> char" where
  "digit_char d = char_of (48 + d)"

fun string_of_nat :: "nat \<Rightarrow> string" where
  "string_of_nat n =
     (if n < 10 then [digit_char n] else string_of_nat (n div 10) @ [digit_char (n mod 10)])"

definition String_of_number :: "jsnum \<Rightarrow> error + string" where
  "String_of_number n = (case n of
      Fin q \<Rightarrow>
        if q = of_int \<lfloor>q\<rfloor> \<and> \<bar>q\<bar> < 10 ^ 21
        then Inr ((if q < 0 then ''-'' else []) @ string_of_nat (nat \<bar>\<lfloor>q\<rfloor>\<bar>))
        else Inl Unmodelled
    | PInf \<Rightarrow> Inr ''Infinity''
    | NInf \<Rightarrow> Inr ''-Infinity''
    | NaN \<Rightarrow> Inr ''NaN'')"

fun String_of_json :: "json \<Rightarrow> error + string"
  and join_json :: "json list \<Rightarrow> error + string"
where
  "String_of_json JNull = Inr ''null''"
| "String_of_json (JBool b) = Inr (if b then ''true'' else ''false'')"
| "String_of_json (JNum n) = String_of_number n"
| "String_of_json (JStr s) = Inr s"
| "String_of_json (JArr vs) = join_json vs"
| "String_of_json (JObj ms) = Inr ''[object Object]''"
| "join_json [] = Inr []"
| "join_json (v # vs) =
     (case (if v = JNull then Inr [] else String_of_json v) of
        Inl err \<Rightarrow> Inl err
      | Inr x \<Rightarrow>
          if vs = [] then Inr x
          else (case join_json vs of Inl err \<Rightarrow> Inl err | Inr y \<Rightarrow> Inr (x @ '','' @ y)))"

text \<open>
  \<open>extractAndParseFirstBracketed\<close>: from the first \<open>[\<close>, the text up to the bracket
  that brings the depth back to zero is handed to \<open>JSON.parse\<close>.
\<close>

fun bracket_end :: "int \<Rightarrow> string \<Rightarrow> nat option" where
  "bracket_end depth [] = None"
| "bracket_end depth (ch # r) =
     (if ch = CHR ''['' then map_option Suc (bracket_end (depth + 1) r)
      else if ch = CHR '']'' then
        (if depth - 1 = 0 then Some 0 else map_option Suc (bracket_end (depth - 1) r))
      else map_option Suc (bracket_end depth r))"

definition extractAndParseFirstBracketed :: "string \<Rightarrow> error + json" where
  "extractAndParseFirstBracketed raw =
     (let s = dropWhile (\<lambda>c. c \<noteq> CHR ''['') raw in
      if s = [] then Inl (Error ''No bracket found'')
      else (case bracket_end 0 s of
              None \<Rightarrow> Inl (Error ''No matching closing bracket found'')
            | Some endIdx \<Rightarrow> JSON_parse (take (endIdx + 1) s)))"

text \<open>
  The messages of the two errors above are abridged: the caller catches both and never
  reads them.

  \<open>rawText.match(/edges\s*=\s*(\[.*)/s)\<close>: the leftmost \<open>edges\<close> that is followed, white
  space apart, by \<open>=\<close> and \<open>[\<close>; the captured group runs from that bracket to the end of
  the text.
\<close>

definition edges_match_here :: "string \<Rightarrow> string option" where
  "edges_match_here s =
     (if take 5 s = ''edges'' then
        (case dropWhile is_ws (drop 5 s) of
           c # r \<Rightarrow>
             if c = CHR ''='' then
               (case dropWhile is_ws r of
                  b # r' \<Rightarrow> if b = CHR ''['' then Some (b # r') else None
                | [] \<Rightarrow> None)
             else None
         | [] \<Rightarrow> None)
      else None)"

fun edges_match :: "string \<Rightarrow> string option" where
  "edges_match [] = None"
| "edges_match (c # r) =
     (case edges_match_here (c # r) of Some m \<Rightarrow> Some m | None \<Rightarrow> edges_match r)"

text \<open>
  The value of \<open>parsed\<close> after the three attempts; \<open>None\<close> is \<open>null\<close>. Each \<open>catch\<close>
  takes whatever the attempt threw.
\<close>

definition caught :: "error + 'a \<Rightarrow> (error + 'a) \<Rightarrow> error + 'a" where
  "caught attempt handler = (case attempt of
      Inr v \<Rightarrow> Inr v
    | Inl Unmodelled \<Rightarrow> Inl Unmodelled
    | Inl _ \<Rightarrow> handler)"

definition array_mode_parsed :: "string \<Rightarrow> error + json option" where
  "array_mode_parsed rawText =
     caught (map_sum id Some (JSON_parse rawText))
       (caught (map_sum id Some (extractAndParseFirstBracketed rawText))
          (case edges_match rawText of
             None \<Rightarrow> Inr None
           | Some m \<Rightarrow> caught (map_sum id Some (JSON_parse m)) (Inr None)))"

fun js_truthy :: "json \<Rightarrow> bool" where
  "js_truthy JNull = False"
| "js_truthy (JBool b) = b"
| "js_truthy (JNum n) = (n \<noteq> Fin 0 \<and> n \<noteq> NaN)"
| "js_truthy (JStr s) = (s \<noteq> [])"
| "js_truthy _ = True"

fun Array_isArray :: "json \<Rightarrow> bool" where
  "Array_isArray (JArr _) = True"
| "Array_isArray _ = False"

text \<open>
  A plain object is replaced by its \<open>edges\<close>, its \<open>graph\<close> or the value of its first
  key that holds an array; that key is tested with \<open>if (arrProp)\<close>, so the empty key
  counts as none.
\<close>

definition array_of_object :: "json \<Rightarrow> error + json" where
  "array_of_object parsed = (case parsed of
      JObj ms \<Rightarrow>
        (case map_of ms ''edges'' of
           Some (JArr a) \<Rightarrow> Inr (JArr a)
         | _ \<Rightarrow>
             (case map_of ms ''graph'' of
                Some (JArr a) \<Rightarrow> Inr (JArr a)
              | _ \<Rightarrow>
                  (case find (\<lambda>(k, v). Array_isArray v) ms of
                     Some (k, v) \<Rightarrow>
                       if k \<noteq> [] then Inr v
                       else Inl (Error
  ''Parsed JSON is an object but no array-property found to interpret as edges or adjacency.'')
                   | None \<Rightarrow> Inl (Error
  ''Parsed JSON is an object but no array-property found to interpret as edges or adjacency.''))))
    | _ \<Rightarrow> Inr parsed)"

definition is_edge_entry :: "json \<Rightarrow> bool" where
  "is_edge_entry el = (case el of JArr xs \<Rightarrow> 2 \<le> length xs | _ \<Rightarrow> False)"

definition parse_edge_entry :: "bool \<Rightarrow> bool \<Rightarrow> json \<Rightarrow> parse_state \<Rightarrow> error + parse_state" where
  "parse_edge_entry weighted directed entry st = (case entry of
      JArr (uRaw # vRaw # rest) \<Rightarrow>
        (case String_of_json uRaw of
           Inl err \<Rightarrow> Inl err
         | Inr u \<Rightarrow>
             (case String_of_json vRaw of
                Inl err \<Rightarrow> Inl err
              | Inr v \<Rightarrow>
                  addEdge weighted directed st u v
                    (case rest of
                       [] \<Rightarrow> WUndefined
                     | wRaw # _ \<Rightarrow> weight_of_coercion (toNumberIfPossible wRaw))))
    | _ \<Rightarrow> Inl (TypeError ''entry is not an edge''))"

definition parse_neighbor_value ::
  "bool \<Rightarrow> bool \<Rightarrow> nat \<Rightarrow> json \<Rightarrow> parse_state \<Rightarrow> error + parse_state"
where
  "parse_neighbor_value weighted directed i vRaw st =
     (case String_of_json vRaw of
        Inl err \<Rightarrow> Inl err
      | Inr v \<Rightarrow> addEdge weighted directed st (string_of_nat i) v WUndefined)"

definition parse_adj_row ::
  "bool \<Rightarrow> bool \<Rightarrow> nat \<times> json \<Rightarrow> parse_state \<Rightarrow> error + parse_state"
where
  "parse_adj_row weighted directed row st = (case row of
      (i, JArr neigh) \<Rightarrow> for_of (parse_neighbor_value weighted directed i) neigh st
    | _ \<Rightarrow> Inr st)"

definition parse_array :: "bool \<Rightarrow> bool \<Rightarrow> string \<Rightarrow> parse_state \<Rightarrow> error + parse_state" where
  "parse_array weighted directed rawText st =
     (case array_mode_parsed rawText of
        Inl err \<Rightarrow> Inl err
      | Inr p \<Rightarrow>
          (case (case p of None \<Rightarrow> None | Some v \<Rightarrow> if js_truthy v then Some v else None) of
             None \<Rightarrow> Inl (Error
  ''Failed to parse array-style input. Ensure it's valid JSON array-like text (e.g. [[1,2],[2,3]]).'')
           | Some v \<Rightarrow>
               (case array_of_object v of
                  Inl err \<Rightarrow> Inl err
                | Inr parsed \<Rightarrow>
                    (case parsed of
                       JArr els \<Rightarrow>
                         if els \<noteq> [] \<and> list_all is_edge_entry els
                           then for_of (parse_edge_entry weighted directed) els st
                         else if els \<noteq> [] \<and> list_all Array_isArray els
                           then for_of (parse_adj_row weighted directed)
                                  (zip [0 ..< length els] els) st
                         else Inl (Error
  ''Unrecognized array structure. Expected array of edges (e.g. [[u,v],[u,v,w],...]) or adjacency-list (e.g. [[1,2],[2],[0]]).'')
                     | _ \<Rightarrow> Inl (Error ''Array-mode parsing did not result in an array.'')))))"

subsection \<open>\<open>parseGraphInput\<close>\<close>

definition initial_state :: parse_state where
  "initial_state = \<lparr> adjacency = Map.empty, edgeKeyToId = Map.empty, nodesSet = [],
                     edgesArr = [], edgeIdCounter = 0 \<rparr>"

definition parse_run :: "string \<Rightarrow> options \<Rightarrow> error + parse_state" where
  "parse_run rawText opts =
     (let weighted = opt_weighted opts;
          directed = opt_directed opts;
          inputMode = (if opt_inputMode opts = [] then ''plain'' else opt_inputMode opts)
      in if inputMode = ''array'' then parse_array weighted directed rawText initial_state
         else parse_plain weighted directed rawText initial_state)"

definition parseGraphInput :: "string \<Rightarrow> options \<Rightarrow> error + graph_model" where
  "parseGraphInput rawText opts =
     (case parse_run rawText opts of
        Inl err \<Rightarrow> Inl err
      | Inr st \<Rightarrow>
          Inr \<lparr> gm_nodesArr = map (\<lambda>i. \<lparr> node_id = i, node_label = i \<rparr>) (nodesSet st),
                gm_edgesArr = edgesArr st,
                gm_adjacency = adjacency st,
                gm_edgeKeyToId = edgeKeyToId st,
                gm_isDirected = opt_directed opts \<rparr>)"

section \<open>The algorithms (\<open>algorithms.js\<close>)\<close>

subsection \<open>\<open>MinHeap\<close>\<close>

record heap_item =
  item_node :: string
  item_priority :: jsnum

text \<open>
  \<open>_swap(a, b)\<close>. Every call of the class passes two indices inside the array; outside
  that range the list is left as it is.
\<close>

definition swap :: "nat \<Rightarrow> nat \<Rightarrow> 'a list \<Rightarrow> 'a list" where
  "swap a b data =
     (if a < length data \<and> b < length data then data[a := data ! b, b := data ! a] else data)"

function siftUp :: "heap_item list \<Rightarrow> nat \<Rightarrow> heap_item list" where
  "siftUp data i =
     (if 0 < i then
        (let p = (i - 1) div 2 in
         if js_le (item_priority (data ! p)) (item_priority (data ! i)) then data
         else siftUp (swap i p data) p)
      else data)"
  by pat_completeness auto
termination
  by (relation "measure snd") auto

definition smallest_of :: "heap_item list \<Rightarrow> nat \<Rightarrow> nat" where
  "smallest_of data i =
     (let l = 2 * i + 1; r = 2 * i + 2;
          s1 = (if l < length data \<and> js_lt (item_priority (data ! l)) (item_priority (data ! i))
                then l else i);
          s2 = (if r < length data \<and> js_lt (item_priority (data ! r)) (item_priority (data ! s1))
                then r else s1)
      in s2)"

function siftDown :: "heap_item list \<Rightarrow> nat \<Rightarrow> heap_item list" where
  "siftDown data i =
     (let smallest = smallest_of data i in
      if smallest = i then data else siftDown (swap i smallest data) smallest)"
  by pat_completeness auto
termination
  by (relation "measure (\<lambda>(data, i). length data - i)")
     (auto simp: smallest_of_def swap_def Let_def split: if_splits)

definition heap_push :: "heap_item list \<Rightarrow> heap_item \<Rightarrow> heap_item list" where
  "heap_push data item = siftUp (data @ [item]) (length data)"

text \<open>\<open>pop()\<close> returns \<open>null\<close> (\<open>None\<close>) on the empty heap.\<close>

definition heap_pop :: "heap_item list \<Rightarrow> heap_item option \<times> heap_item list" where
  "heap_pop data =
     (if data = [] then (None, data)
      else (let d1 = swap 0 (length data - 1) data
            in (Some (last d1), siftDown (butlast d1) 0)))"

subsection \<open>\<open>dijkstraPQ\<close>\<close>

text \<open>
  \<open>dist\<close> is a plain object holding numbers. Where the program reads \<open>dist[k]\<close> in a
  comparison, in a sum with a number or under \<open>isFinite\<close>, a missing or inherited
  property acts as NaN.
\<close>

definition dist_get :: "(string \<rightharpoonup> jsnum) \<Rightarrow> string \<Rightarrow> jsnum" where
  "dist_get dmap k = (case obj_get dmap k of Own v \<Rightarrow> v | _ \<Rightarrow> NaN)"

text \<open>
  \<open>prev\<close> holds \<open>null\<close> or a node id for each key. The assignment \<open>prev[n] = null\<close> with
  \<open>n = "__proto__"\<close> removes the prototype of \<open>prev\<close>; from then on the object inherits
  nothing and \<open>__proto__\<close> is an ordinary key.
\<close>

record prev_obj =
  prev_own :: "string \<rightharpoonup> string option"
  prev_null_proto :: bool

definition prev_init :: "string \<Rightarrow> prev_obj \<Rightarrow> prev_obj" where
  "prev_init n p =
     (if n = ''__proto__'' \<and> \<not> prev_null_proto p then p\<lparr> prev_null_proto := True \<rparr>
      else p\<lparr> prev_own := (prev_own p)(n \<mapsto> None) \<rparr>)"

definition prev_set :: "string \<Rightarrow> string \<Rightarrow> prev_obj \<Rightarrow> prev_obj" where
  "prev_set v u p =
     (if v = ''__proto__'' \<and> \<not> prev_null_proto p then p
      else p\<lparr> prev_own := (prev_own p)(v \<mapsto> Some u) \<rparr>)"

text \<open>
  What \<open>cur\<close> holds while the path is rebuilt: a node id, \<open>undefined\<close>, or a value
  inherited from \<open>Object.prototype\<close> under the given key; \<open>None\<close> is \<open>null\<close>.
\<close>

datatype pathval = PStr string | PUndef | PInh string

definition prev_get :: "prev_obj \<Rightarrow> string \<Rightarrow> pathval option" where
  "prev_get p k = (case prev_own p k of
      Some None \<Rightarrow> None
    | Some (Some u) \<Rightarrow> Some (PStr u)
    | None \<Rightarrow>
        if \<not> prev_null_proto p \<and> k \<in> set Object_prototype_keys then Some (PInh k)
        else Some PUndef)"

text \<open>
  \<open>String(x)\<close>: a built-in function prints as \<open>function name() { [native code] }\<close>
  (the spacing is the one of V8), \<open>Object.prototype\<close> as \<open>[object Object]\<close>.
\<close>

definition String_of_pathval :: "pathval \<Rightarrow> string" where
  "String_of_pathval x = (case x of
      PStr s \<Rightarrow> s
    | PUndef \<Rightarrow> ''undefined''
    | PInh k \<Rightarrow>
        if k = ''__proto__'' then ''[object Object]''
        else ''function '' @ (if k = ''constructor'' then ''Object'' else k)
             @ ''() { [native code] }'')"

record dijkstra_result =
  distance :: jsnum
  path :: "pathval list"
  edgeIds :: "nat list"

definition empty_result :: dijkstra_result where
  "empty_result = \<lparr> distance = PInf, path = [], edgeIds = [] \<rparr>"

record dijkstra_state =
  ds_dist :: "string \<rightharpoonup> jsnum"
  ds_prev :: prev_obj
  ds_pq :: "heap_item list"

definition relax :: "string \<Rightarrow> adj_entry \<Rightarrow> dijkstra_state \<Rightarrow> dijkstra_state" where
  "relax u e st =
     (let v = adj_to e;
          w = adj_weight e;
          alt = js_add (dist_get (ds_dist st) u) w
      in if js_lt alt (dist_get (ds_dist st) v)
         then \<lparr> ds_dist = obj_set (ds_dist st) v alt,
                ds_prev = prev_set v u (ds_prev st),
                ds_pq = heap_push (ds_pq st) \<lparr> item_node = v, item_priority = alt \<rparr> \<rparr>
         else st)"

text \<open>
  The main loop. It need not terminate (a negative weight can lower the distances for
  ever), so its result is an option: \<open>None\<close> stands for a loop that never ends.
\<close>

partial_function (option) dijkstra_loop ::
  "(string \<rightharpoonup> adj_entry list) \<Rightarrow> string \<Rightarrow> dijkstra_state \<Rightarrow> (error + dijkstra_state) option"
where
  "dijkstra_loop adj target st =
     (if ds_pq st = [] then Some (Inr st)
      else
        (case heap_pop (ds_pq st) of
           (None, pq1) \<Rightarrow> Some (Inr st)
         | (Some it, pq1) \<Rightarrow>
             (let u = item_node it; d = item_priority it; st1 = st\<lparr> ds_pq := pq1 \<rparr> in
              if js_gt d (dist_get (ds_dist st1) u) then dijkstra_loop adj target st1
              else if u = target then Some (Inr st1)
              else
                (case obj_get adj u of
                   Inherited \<Rightarrow> Some (Inl (TypeError ''neighbors is not iterable''))
                 | Own neighbors \<Rightarrow> dijkstra_loop adj target (fold (relax u) neighbors st1)
                 | Absent \<Rightarrow> dijkstra_loop adj target st1))))"

text \<open>
  Rebuilding the path follows \<open>prev\<close> until \<open>null\<close>. It need not terminate either: the
  predecessor of a key that \<open>prev\<close> does not hold is \<open>undefined\<close>, which is not \<open>null\<close>.
\<close>

partial_function (option) path_loop ::
  "prev_obj \<Rightarrow> pathval option \<Rightarrow> pathval list \<Rightarrow> pathval list option"
where
  "path_loop prev cur acc =
     (case cur of
        None \<Rightarrow> Some acc
      | Some c \<Rightarrow> path_loop prev (prev_get prev (String_of_pathval c)) (acc @ [c]))"

text \<open>
  \<open>normalizeKey\<close> inside \<open>dijkstraPQ\<close>, on what the path holds: \<open>sort\<close> moves
  \<open>undefined\<close> to the end and compares the other values as strings; \<open>join\<close> prints
  \<open>undefined\<close> as the empty string.
\<close>

definition join_pathval :: "pathval \<Rightarrow> string" where
  "join_pathval x = (if x = PUndef then [] else String_of_pathval x)"

definition normalizeKey :: "pathval \<Rightarrow> pathval \<Rightarrow> bool \<Rightarrow> string" where
  "normalizeKey a b directed =
     (if directed then String_of_pathval a @ ''->'' @ String_of_pathval b
      else if b = PUndef then join_pathval a @ ''--'' @ join_pathval b
      else if a = PUndef then join_pathval b @ ''--'' @ join_pathval a
      else if str_less (String_of_pathval b) (String_of_pathval a)
        then join_pathval b @ ''--'' @ join_pathval a
      else join_pathval a @ ''--'' @ join_pathval b)"

text \<open>
  The edge ids of the consecutive pairs of the path. A key of \<open>edgeKeyToId\<close> built by
  \<open>normalizeKey\<close> contains \<open>->\<close> or \<open>--\<close>, so it names no property of
  \<open>Object.prototype\<close> and the lookup is the one of the own properties.
\<close>

definition edge_id_of :: "(string \<rightharpoonup> nat) \<Rightarrow> bool \<Rightarrow> pathval \<times> pathval \<Rightarrow> nat list" where
  "edge_id_of keyToId isDirected ab = (case ab of (a, b) \<Rightarrow>
     (case keyToId (normalizeKey a b isDirected) of
        Some eid \<Rightarrow> [eid]
      | None \<Rightarrow>
          (case keyToId (normalizeKey b a isDirected) of
             Some eid \<Rightarrow> [eid]
           | None \<Rightarrow> [])))"

definition path_edgeIds :: "(string \<rightharpoonup> nat) \<Rightarrow> bool \<Rightarrow> pathval list \<Rightarrow> nat list" where
  "path_edgeIds keyToId isDirected p =
     concat (map (edge_id_of keyToId isDirected) (zip p (tl p)))"

definition dijkstra_init :: "string \<Rightarrow> string list \<Rightarrow> dijkstra_state" where
  "dijkstra_init source nodesIterable =
     (let d0 = fold (\<lambda>n d. obj_set d n PInf) nodesIterable Map.empty;
          p0 = fold prev_init nodesIterable \<lparr> prev_own = Map.empty, prev_null_proto = False \<rparr>
      in \<lparr> ds_dist = obj_set d0 source (Fin 0),
            ds_prev = p0,
            ds_pq = heap_push [] \<lparr> item_node = source, item_priority = Fin 0 \<rparr> \<rparr>)"

text \<open>
  \<open>dijkstraPQ\<close>. The adjacency argument is an option, \<open>None\<close> for an absent (falsy)
  one; an empty string is a falsy source or target. The result is \<open>None\<close> when one of
  the two loops does not terminate.
\<close>

definition dijkstraPQ ::
  "(string \<rightharpoonup> adj_entry list) option \<Rightarrow> (string \<rightharpoonup> nat) \<Rightarrow> bool \<Rightarrow> string \<Rightarrow> string
     \<Rightarrow> string list \<Rightarrow> (error + dijkstra_result) option"
where
  "dijkstraPQ adjacency_opt keyToId isDirected source target nodesIterable =
     (case adjacency_opt of
        None \<Rightarrow> Some (Inr empty_result)
      | Some adj \<Rightarrow>
          if source = [] \<or> target = [] then Some (Inr empty_result)
          else
            (case dijkstra_loop adj target (dijkstra_init source nodesIterable) of
               None \<Rightarrow> None
             | Some (Inl err) \<Rightarrow> Some (Inl err)
             | Some (Inr st) \<Rightarrow>
                 if \<not> isFinite (dist_get (ds_dist st) target) then Some (Inr empty_result)
                 else
                   (case path_loop (ds_prev st) (Some (PStr target)) [] of
                      None \<Rightarrow> None
                    | Some p \<Rightarrow>
                        Some (Inr \<lparr> distance = dist_get (ds_dist st) target,
                                    path = rev p,
                                    edgeIds = path_edgeIds keyToId isDirected (rev p) \<rparr>))))"

text \<open>The call of the user interface: \<open>shortestPath(model, source, target)\<close>.\<close>

definition shortestPath :: "graph_model \<Rightarrow> string \<Rightarrow> string \<Rightarrow> (error + dijkstra_result) option" where
  "shortestPath g source target =
     dijkstraPQ (Some (gm_adjacency g)) (gm_edgeKeyToId g) (gm_isDirected g) source target
       (map node_id (gm_nodesArr g))"

declare dijkstra_loop.simps [code]
declare path_loop.simps [code]

subsection \<open>\<open>primMST\<close>\<close>

record candidate =
  cand_from :: string
  cand_to :: string
  cand_weight :: jsnum
  cand_edgeId :: nat

record prim_result =
  totalWeight :: jsnum
  mst_edgeIds :: "nat list"

text \<open>
  \<open>edgeCandidates.sort((a, b) => a.weight - b.weight)\<close>. The sort of ECMAScript is
  stable; for a comparator that orders the weights consistently, as this one does on
  finite weights, its result is the one of the stable insertion sort below. A comparator
  value NaN counts as 0.
\<close>

definition comes_after :: "candidate \<Rightarrow> candidate \<Rightarrow> bool" where
  "comes_after a b = js_lt (Fin 0) (js_sub (cand_weight a) (cand_weight b))"

fun insert_candidate :: "candidate \<Rightarrow> candidate list \<Rightarrow> candidate list" where
  "insert_candidate c [] = [c]"
| "insert_candidate c (x # xs) =
     (if comes_after c x then x # insert_candidate c xs else c # x # xs)"

definition sort_candidates :: "candidate list \<Rightarrow> candidate list" where
  "sort_candidates cs = foldr insert_candidate cs []"

text \<open>The index of the first candidate whose \<open>to\<close> is outside the tree, if any.\<close>

fun first_outside :: "string list \<Rightarrow> candidate list \<Rightarrow> nat option" where
  "first_outside inMST [] = None"
| "first_outside inMST (c # cs) =
     (if cand_to c \<notin> set inMST then Some 0 else map_option Suc (first_outside inMST cs))"

text \<open>
  \<open>(adjacency[k] || []).forEach(...)\<close> pushing the entries that lead outside the tree
  (all the entries, when the tree is seeded): an inherited property is truthy and has no
  \<open>forEach\<close>.
\<close>

definition candidates_from ::
  "(string \<rightharpoonup> adj_entry list) \<Rightarrow> string \<Rightarrow> (adj_entry \<Rightarrow> bool) \<Rightarrow> error + candidate list"
where
  "candidates_from adj k keep = (case obj_get adj k of
      Inherited \<Rightarrow> Inl (TypeError ''forEach is not a function'')
    | Absent \<Rightarrow> Inr []
    | Own l \<Rightarrow>
        Inr (map (\<lambda>e. \<lparr> cand_from = k, cand_to = adj_to e, cand_weight = adj_weight e,
                         cand_edgeId = adj_edgeId e \<rparr>) (filter keep l)))"

record prim_state =
  ps_inMST :: "string list"
  ps_candidates :: "candidate list"
  ps_chosen :: "nat list"
  ps_total :: jsnum

function prim_loop ::
  "(string \<rightharpoonup> adj_entry list) \<Rightarrow> nat \<Rightarrow> prim_state \<Rightarrow> error + prim_state"
where
  "prim_loop adj n st =
     (if length (ps_inMST st) < n \<and> ps_candidates st \<noteq> [] then
        (let sorted = sort_candidates (ps_candidates st) in
         case first_outside (ps_inMST st) sorted of
           None \<Rightarrow> Inr (st\<lparr> ps_candidates := sorted \<rparr>)
         | Some idx \<Rightarrow>
             (let chosen = sorted ! idx;
                  rest = take idx sorted @ drop (Suc idx) sorted;
                  inMST' = Set_add (cand_to chosen) (ps_inMST st)
              in case candidates_from adj (cand_to chosen) (\<lambda>e. adj_to e \<notin> set inMST') of
                   Inl err \<Rightarrow> Inl err
                 | Inr new \<Rightarrow>
                     prim_loop adj n
                       \<lparr> ps_inMST = inMST',
                         ps_candidates = rest @ new,
                         ps_chosen = ps_chosen st @ [cand_edgeId chosen],
                         ps_total = js_add (ps_total st) (cand_weight chosen) \<rparr>))
      else Inr st)"
  by pat_completeness auto

termination
proof (relation "measure (\<lambda>(adj, n, st). n - length (ps_inMST st))")
  show "wf (measure (\<lambda>(adj, n, st). n - length (ps_inMST st)))"
    by simp
next
  fix adj :: "string \<rightharpoonup> adj_entry list" and n :: nat and st :: prim_state
    and sorted idx chosen rest inMST' new
  assume a: "length (ps_inMST st) < n \<and> ps_candidates st \<noteq> []"
    and s: "sorted = sort_candidates (ps_candidates st)"
    and f: "first_outside (ps_inMST st) sorted = Some idx"
    and c: "chosen = sorted ! idx"
    and i: "inMST' = Set_add (cand_to chosen) (ps_inMST st)"
  have "idx < length cs \<and> cand_to (cs ! idx) \<notin> set M"
    if "first_outside M cs = Some idx" for M cs idx
    using that by (induction cs arbitrary: idx) (auto split: if_splits)
  from this [OF f] c have "cand_to chosen \<notin> set (ps_inMST st)"
    by simp
  with i have "length inMST' = Suc (length (ps_inMST st))"
    by (simp add: Set_add_def)
  with a show "((adj, n, \<lparr> ps_inMST = inMST', ps_candidates = rest @ new,
                   ps_chosen = ps_chosen st @ [cand_edgeId chosen],
                   ps_total = js_add (ps_total st) (cand_weight chosen) \<rparr>), adj, n, st)
               \<in> measure (\<lambda>(adj, n, st). n - length (ps_inMST st))"
    by (simp, linarith)
qed

text \<open>
  \<open>primMST\<close>. The start node is an option (\<open>None\<close> for \<open>null\<close>), and an empty string is
  falsy.
\<close>

definition primMST ::
  "(string \<rightharpoonup> adj_entry list) \<Rightarrow> string list \<Rightarrow> string option \<Rightarrow> error + prim_result"
where
  "primMST adj nodesIterable startNode =
     (let nodes = nodesIterable in
      case nodes of
        [] \<Rightarrow> Inr \<lparr> totalWeight = Fin 0, mst_edgeIds = [] \<rparr>
      | first # _ \<Rightarrow>
          (let start = (case startNode of
                          None \<Rightarrow> first
                        | Some s \<Rightarrow> if s \<noteq> [] \<and> s \<in> set nodes then s else first)
           in case candidates_from adj start (\<lambda>e. True) of
                Inl err \<Rightarrow> Inl err
              | Inr seed \<Rightarrow>
                  (case prim_loop adj (length nodes)
                          \<lparr> ps_inMST = [start], ps_candidates = seed, ps_chosen = [],
                            ps_total = Fin 0 \<rparr> of
                     Inl err \<Rightarrow> Inl err
                   | Inr st \<Rightarrow>
                       Inr \<lparr> totalWeight = ps_total st, mst_edgeIds = ps_chosen st \<rparr>)))"

text \<open>The call of the user interface: \<open>minimumSpanningTree(model, startNode)\<close>.\<close>

definition minimumSpanningTree :: "graph_model \<Rightarrow> string option \<Rightarrow> error + prim_result" where
  "minimumSpanningTree g startNode =
     primMST (gm_adjacency g) (map node_id (gm_nodesArr g)) startNode"

section \<open>Properties of the parser and of the algorithms\<close>

text \<open>The end points of the edges of a model, in the order of the edge ids.\<close>

definition edge_ends :: "graph_model \<Rightarrow> (string \<times> string) list" where
  "edge_ends g = map (\<lambda>e. (edge_from e, edge_to e)) (gm_edgesArr g)"

text \<open>The characters of an unsigned decimal literal other than \<open>Infinity\<close>.\<close>

definition literal_char :: "char \<Rightarrow> bool" where
  "literal_char c = (is_digit_in 10 c \<or> c = CHR ''.'' \<or> c = CHR ''e'' \<or> c = CHR ''E''
                     \<or> c = CHR ''+'' \<or> c = CHR ''-'')"

text \<open>
  The order of a binary heap on the array of \<open>MinHeap\<close>, for finite priorities: every
  item is at least its parent, with one position excepted while an item is sifted up or
  down. \<open>diverging\<close> describes the states of the search from \<open>B\<close> to \<open>A\<close> on the graph
  with the edges \<open>A B 1\<close> and \<open>B C -1\<close>: the least item of the queue is a fresh entry
  of \<open>B\<close> or \<open>C\<close>, and the other of the two can still be lowered.
\<close>

definition key :: "heap_item \<Rightarrow> rat" where
  "key x = (case item_priority x of Fin q \<Rightarrow> q | _ \<Rightarrow> 0)"

definition fin_items :: "heap_item list \<Rightarrow> bool" where
  "fin_items data = list_all (\<lambda>x. isFinite (item_priority x)) data"

definition heap_ok :: "heap_item list \<Rightarrow> bool" where
  "heap_ok data = (\<forall>i < length data. 0 < i \<longrightarrow> key (data ! ((i - 1) div 2)) \<le> key (data ! i))"

definition parent :: "nat \<Rightarrow> nat" where
  "parent j = (j - 1) div 2"

definition heap_except_up :: "heap_item list \<Rightarrow> nat \<Rightarrow> bool" where
  "heap_except_up data i =
     ((\<forall>j < length data. 0 < j \<longrightarrow> j \<noteq> i \<longrightarrow> key (data ! parent j) \<le> key (data ! j))
      \<and> (0 < i \<longrightarrow> (\<forall>c < length data. 0 < c \<longrightarrow> parent c = i
             \<longrightarrow> key (data ! parent i) \<le> key (data ! c))))"

definition heap_except_down :: "heap_item list \<Rightarrow> nat \<Rightarrow> bool" where
  "heap_except_down data i =
     ((\<forall>j < length data. 0 < j \<longrightarrow> parent j \<noteq> i \<longrightarrow> key (data ! parent j) \<le> key (data ! j))
      \<and> (0 < i \<longrightarrow> (\<forall>c < length data. 0 < c \<longrightarrow> parent c = i
             \<longrightarrow> key (data ! parent i) \<le> key (data ! c))))"

definition diverging :: "dijkstra_state \<Rightarrow> bool" where
  "diverging st =
     (\<exists>u v d rest.
        ((u = ''B'' \<and> v = ''C'') \<or> (u = ''C'' \<and> v = ''B''))
        \<and> ds_dist st u = Some (Fin d)
        \<and> js_lt (Fin (d - 1)) (dist_get (ds_dist st) v)
        \<and> mset (ds_pq st) = add_mset \<lparr> item_node = u, item_priority = Fin d \<rparr> rest
        \<and> (\<forall>x \<in># rest. d < key x)
        \<and> heap_ok (ds_pq st) \<and> fin_items (ds_pq st))"

definition to_A :: adj_entry where
  "to_A = \<lparr> adj_to = ''A'', adj_weight = Fin 1, adj_edgeId = 0 \<rparr>"

definition to_C :: adj_entry where
  "to_C = \<lparr> adj_to = ''C'', adj_weight = Fin (- 1), adj_edgeId = 1 \<rparr>"

definition to_B :: adj_entry where
  "to_B = \<lparr> adj_to = ''B'', adj_weight = Fin (- 1), adj_edgeId = 1 \<rparr>"

text \<open>
  The edges that the parser is asked to add on an input: the end points \<open>(from, to)\<close>
  of the calls of \<open>addEdge\<close>, in the order of the calls, read off the input alone.
  \<open>collect\<close> joins the edges of the items of a list, \<open>edges_of_token\<close> and
  \<open>edges_of_line\<close> follow the plain-text mode, \<open>edges_of_entry\<close>, \<open>edges_of_neighbor\<close>
  and \<open>edges_of_row\<close> the array mode. \<open>extends st es st'\<close> says that the edges array of
  \<open>st'\<close> is the one of \<open>st\<close> followed by edges with the end points \<open>es\<close> and with the
  next ids.
\<close>

fun collect :: "('a \<Rightarrow> error + 'b list) \<Rightarrow> 'a list \<Rightarrow> error + 'b list" where
  "collect f [] = Inr []"
| "collect f (x # xs) =
     (case f x of
        Inl err \<Rightarrow> Inl err
      | Inr ys \<Rightarrow> (case collect f xs of Inl err \<Rightarrow> Inl err | Inr zs \<Rightarrow> Inr (ys @ zs)))"

definition edges_of_token :: "string \<Rightarrow> string \<Rightarrow> error + (string \<times> string) list" where
  "edges_of_token from tok =
     (if tok = [] then Inr []
      else if CHR ''-'' \<in> set tok then
        (case split_char (CHR ''-'') tok of
           vRaw # wRaw # _ \<Rightarrow> Inr [(from, trim vRaw)]
         | _ \<Rightarrow> Inl (TypeError ''undefined has no properties''))
      else Inr [(from, trim tok)])"

definition edges_of_line :: "string \<Rightarrow> error + (string \<times> string) list" where
  "edges_of_line line =
     (if CHR '':'' \<in> set line then
        (case split_char (CHR '':'') line of
           nodePart # neighborsPart # _ \<Rightarrow>
             collect (edges_of_token (trim nodePart))
               (filter_Boolean (split_ws (trim neighborsPart)))
         | _ \<Rightarrow> Inl (TypeError ''undefined has no properties''))
      else
        (case filter_Boolean (split_ws line) of
           u # v # rest \<Rightarrow> Inr [(u, v)]
         | _ \<Rightarrow> Inr []))"

definition edges_of_entry :: "json \<Rightarrow> error + (string \<times> string) list" where
  "edges_of_entry entry = (case entry of
      JArr (uRaw # vRaw # rest) \<Rightarrow>
        (case String_of_json uRaw of
           Inl err \<Rightarrow> Inl err
         | Inr u \<Rightarrow>
             (case String_of_json vRaw of
                Inl err \<Rightarrow> Inl err
              | Inr v \<Rightarrow> Inr [(u, v)]))
    | _ \<Rightarrow> Inl (TypeError ''entry is not an edge''))"

definition edges_of_neighbor :: "nat \<Rightarrow> json \<Rightarrow> error + (string \<times> string) list" where
  "edges_of_neighbor i vRaw =
     (case String_of_json vRaw of
        Inl err \<Rightarrow> Inl err
      | Inr v \<Rightarrow> Inr [(string_of_nat i, v)])"

definition edges_of_row :: "nat \<times> json \<Rightarrow> error + (string \<times> string) list" where
  "edges_of_row row = (case row of
      (i, JArr neigh) \<Rightarrow> collect (edges_of_neighbor i) neigh
    | _ \<Rightarrow> Inr [])"

definition edges_of_input :: "string \<Rightarrow> options \<Rightarrow> error + (string \<times> string) list" where
  "edges_of_input rawText opts =
     (if (if opt_inputMode opts = [] then ''plain'' else opt_inputMode opts) = ''array'' then
        (case array_mode_parsed rawText of
           Inl err \<Rightarrow> Inl err
         | Inr p \<Rightarrow>
             (case (case p of None \<Rightarrow> None | Some v \<Rightarrow> if js_truthy v then Some v else None) of
                None \<Rightarrow> Inl (Error ''Failed to parse array-style input.'')
              | Some v \<Rightarrow>
                  (case array_of_object v of
                     Inl err \<Rightarrow> Inl err
                   | Inr parsed \<Rightarrow>
                       (case parsed of
                          JArr els \<Rightarrow>
                            if els \<noteq> [] \<and> list_all is_edge_entry els
                              then collect edges_of_entry els
                            else if els \<noteq> [] \<and> list_all Array_isArray els
                              then collect edges_of_row (zip [0 ..< length els] els)
                            else Inl (Error ''Unrecognized array structure.'')
                        | _ \<Rightarrow> Inl (Error ''Array-mode parsing did not result in an array.'')))))
      else collect edges_of_line
             (filter (\<lambda>l. l \<noteq> []) (map trim (split_char (CHR 0x0A) rawText))))"

definition edge_ends_of :: "parse_state \<Rightarrow> (string \<times> string) list" where
  "edge_ends_of st = map (\<lambda>e. (edge_from e, edge_to e)) (edgesArr st)"

definition extends :: "parse_state \<Rightarrow> (string \<times> string) list \<Rightarrow> parse_state \<Rightarrow> bool" where
  "extends st es st' =
     (edge_ends_of st' = edge_ends_of st @ es
      \<and> map edge_id (edgesArr st')
          = map edge_id (edgesArr st) @ [edgeIdCounter st ..< edgeIdCounter st + length es]
      \<and> edgeIdCounter st' = edgeIdCounter st + length es)"

text \<open>
  Walks in an adjacency object: \<open>arc adj u v w\<close> is an entry of \<open>adj[u]\<close> that leads to
  \<open>v\<close> with the finite weight \<open>w\<close>, and \<open>reach adj x v c\<close> a walk from \<open>x\<close> to \<open>v\<close>
  whose weights add up to \<open>c\<close>. In a \<open>good_graph\<close> no weight is negative, every entry
  leads to a key of the object, and no key is the name of a property of
  \<open>Object.prototype\<close>.
\<close>

definition arc :: "(string \<rightharpoonup> adj_entry list) \<Rightarrow> string \<Rightarrow> string \<Rightarrow> rat \<Rightarrow> bool" where
  "arc adj u v w = (\<exists>l e. adj u = Some l \<and> e \<in> set l \<and> adj_to e = v \<and> adj_weight e = Fin w)"

inductive reach :: "(string \<rightharpoonup> adj_entry list) \<Rightarrow> string \<Rightarrow> string \<Rightarrow> rat \<Rightarrow> bool"
  for adj :: "string \<rightharpoonup> adj_entry list" and x :: string
where
  start: "reach adj x x 0"
| step: "reach adj x u c \<Longrightarrow> arc adj u v w \<Longrightarrow> reach adj x v (c + w)"

definition good_graph :: "(string \<rightharpoonup> adj_entry list) \<Rightarrow> bool" where
  "good_graph adj =
     ((\<forall>u l e. adj u = Some l \<longrightarrow> e \<in> set l \<longrightarrow>
         (\<exists>w. 0 \<le> w \<and> adj_weight e = Fin w) \<and> adj (adj_to e) \<noteq> None)
      \<and> (\<forall>k. adj k \<noteq> None \<longrightarrow> k \<notin> set Object_prototype_keys))"

text \<open>
  The invariant of the loop of \<open>dijkstraPQ\<close> started at \<open>x\<close>. \<open>S\<close> lists the nodes that
  were popped with a fresh entry, the latest first; while the entries of the latest are
  relaxed, \<open>proc\<close> holds those already relaxed (\<open>done_of\<close> gives, for a node of \<open>S\<close>,
  the entries relaxed so far). The parts of the invariant:
  \<^item> \<open>c_dom\<close>: the distance object has finitely many own keys, among them the nodes of
    \<open>S\<close> and the keys of the adjacency object;
  \<^item> \<open>c_val\<close>: a finite distance is the weight of a walk from \<open>x\<close>;
  \<^item> \<open>c_src\<close>: the distance of \<open>x\<close> is 0 and \<open>x\<close> has no predecessor;
  \<^item> \<open>c_set\<close>: the distance of a node of \<open>S\<close> is below every walk to it, and each of its
    relaxed entries leads to a node whose distance is at most the sum;
  \<^item> \<open>c_ord\<close>: no node of \<open>S\<close> is further than the latest;
  \<^item> \<open>c_frs\<close>: a node with a finite distance and outside \<open>S\<close> has a fresh entry in the
    queue;
  \<^item> \<open>c_ent\<close>: the priority of an entry of the queue is at least the distance of its
    node (above it for a node of \<open>S\<close>) and at least the distance of every node of \<open>S\<close>;
  \<^item> \<open>c_heap\<close>: the queue is a heap of distinct items with finite priorities;
  \<^item> \<open>c_prev\<close>: the predecessor of a node other than \<open>x\<close> with a finite distance is a
    node of \<open>S\<close> that entered \<open>S\<close> before the node did.

  \<open>post\<close> is what holds when the loop has returned: the invariant, with the target in
  \<open>S\<close> if a walk leads to it.
\<close>

definition done_of ::
  "(string \<rightharpoonup> adj_entry list) \<Rightarrow> string list \<Rightarrow> adj_entry set option \<Rightarrow> string \<Rightarrow> adj_entry set"
where
  "done_of adj S proc v =
     (case proc of
        Some es \<Rightarrow> if v = hd S then es else (case adj v of Some l \<Rightarrow> set l | None \<Rightarrow> {})
      | None \<Rightarrow> (case adj v of Some l \<Rightarrow> set l | None \<Rightarrow> {}))"

definition c_dom :: "(string \<rightharpoonup> adj_entry list) \<Rightarrow> string list \<Rightarrow> dijkstra_state \<Rightarrow> bool" where
  "c_dom adj S st = (finite (dom (ds_dist st)) \<and> set S \<subseteq> dom (ds_dist st) \<and> distinct S
                     \<and> (\<forall>k. adj k \<noteq> None \<longrightarrow> ds_dist st k \<noteq> None))"

definition c_val :: "(string \<rightharpoonup> adj_entry list) \<Rightarrow> string \<Rightarrow> dijkstra_state \<Rightarrow> bool" where
  "c_val adj x st = (\<forall>v d. ds_dist st v = Some d \<longrightarrow> d = PInf \<or> (\<exists>q. d = Fin q \<and> reach adj x v q))"

definition c_src :: "string \<Rightarrow> dijkstra_state \<Rightarrow> bool" where
  "c_src x st = (ds_dist st x = Some (Fin 0) \<and> prev_own (ds_prev st) x = Some None)"

definition c_set ::
  "(string \<rightharpoonup> adj_entry list) \<Rightarrow> string \<Rightarrow> string list \<Rightarrow> adj_entry set option
     \<Rightarrow> dijkstra_state \<Rightarrow> bool"
where
  "c_set adj x S proc st =
     (\<forall>v \<in> set S. \<exists>d. ds_dist st v = Some (Fin d) \<and> (\<forall>c. reach adj x v c \<longrightarrow> d \<le> c)
        \<and> (\<forall>e \<in> done_of adj S proc v. \<exists>w du. adj_weight e = Fin w
               \<and> ds_dist st (adj_to e) = Some (Fin du) \<and> du \<le> d + w))"

definition c_ord :: "string list \<Rightarrow> dijkstra_state \<Rightarrow> bool" where
  "c_ord S st = (\<forall>s \<in> set S. \<forall>q dh. ds_dist st s = Some (Fin q)
                   \<longrightarrow> ds_dist st (hd S) = Some (Fin dh) \<longrightarrow> q \<le> dh)"

definition c_frs :: "string list \<Rightarrow> dijkstra_state \<Rightarrow> bool" where
  "c_frs S st = (\<forall>v d. ds_dist st v = Some (Fin d) \<longrightarrow> v \<notin> set S
                   \<longrightarrow> \<lparr> item_node = v, item_priority = Fin d \<rparr> \<in> set (ds_pq st))"

definition c_ent :: "string list \<Rightarrow> dijkstra_state \<Rightarrow> bool" where
  "c_ent S st =
     (\<forall>e \<in> set (ds_pq st). \<exists>d. ds_dist st (item_node e) = Some (Fin d) \<and> d \<le> key e
        \<and> (item_node e \<in> set S \<longrightarrow> d < key e)
        \<and> (\<forall>s \<in> set S. \<forall>q. ds_dist st s = Some (Fin q) \<longrightarrow> q \<le> key e))"

definition c_heap :: "dijkstra_state \<Rightarrow> bool" where
  "c_heap st = (heap_ok (ds_pq st) \<and> fin_items (ds_pq st) \<and> distinct (ds_pq st))"

definition c_prev :: "string \<Rightarrow> string list \<Rightarrow> dijkstra_state \<Rightarrow> bool" where
  "c_prev x S st =
     (\<forall>v q. ds_dist st v = Some (Fin q) \<longrightarrow> v \<noteq> x \<longrightarrow>
        (\<exists>u. prev_own (ds_prev st) v = Some (Some u) \<and> u \<in> set S
              \<and> v \<notin> set (dropWhile (\<lambda>s. s \<noteq> u) S)))"

definition dinv ::
  "(string \<rightharpoonup> adj_entry list) \<Rightarrow> string \<Rightarrow> string list \<Rightarrow> adj_entry set option
     \<Rightarrow> dijkstra_state \<Rightarrow> bool"
where
  "dinv adj x S proc st =
     (c_dom adj S st \<and> c_val adj x st \<and> c_src x st \<and> c_set adj x S proc st \<and> c_ord S st
      \<and> c_frs S st \<and> c_ent S st \<and> c_heap st \<and> c_prev x S st)"

definition post :: "(string \<rightharpoonup> adj_entry list) \<Rightarrow> string \<Rightarrow> string \<Rightarrow> dijkstra_state \<Rightarrow> bool" where
  "post adj x t st = (\<exists>S proc. dinv adj x S proc st \<and> (\<forall>c. reach adj x t c \<longrightarrow> t \<in> set S))"

text \<open>
  \<open>small_weights\<close>: on every node of the model, the weight of every entry of the
  adjacency is an integer \<open>w\<close> with \<open>0 \<le> w\<close> and \<open>w * n \<le> 2^53\<close>, for \<open>n\<close> the number
  of nodes; every sum of fewer than \<open>n\<close> such weights is then an integer below \<open>2^53\<close>,
  which the additions of JavaScript give exactly. \<open>mirrored\<close> is the invariant of an undirected
  parse: the keys of the adjacency object are nodes and none names a property of
  \<open>Object.prototype\<close>, and every entry has an entry of the same weight in the other
  direction.
\<close>

definition small_weights :: "graph_model \<Rightarrow> bool" where
  "small_weights g =
     list_all (\<lambda>k. case gm_adjacency g k of
                      None \<Rightarrow> True
                    | Some l \<Rightarrow>
                        list_all (\<lambda>e. case adj_weight e of
                                         Fin q \<Rightarrow> 0 \<le> q \<and> q = of_int \<lfloor>q\<rfloor>
                                                  \<and> q * of_nat (length (gm_nodesArr g)) \<le> 2 ^ 53
                                       | _ \<Rightarrow> False) l)
       (map node_id (gm_nodesArr g))"

definition mirrored :: "parse_state \<Rightarrow> bool" where
  "mirrored st =
     ((\<forall>k. adjacency st k \<noteq> None \<longrightarrow> k \<notin> set Object_prototype_keys \<and> k \<in> set (nodesSet st))
      \<and> (\<forall>k l e. adjacency st k = Some l \<longrightarrow> e \<in> set l \<longrightarrow>
            (\<exists>l' e'. adjacency st (adj_to e) = Some l' \<and> e' \<in> set l' \<and> adj_to e' = k
                       \<and> adj_weight e' = adj_weight e)))"

subsection \<open>Invariants of a parse\<close>

text \<open>
  Whatever the input mode, a parse is a sequence of calls of \<open>addEdge\<close> and of additions
  to the node set, from the initial state; a property of the state that these two steps
  keep holds at the end of every parse that succeeds.
\<close>

lemma for_of_invariant:
  assumes "for_of body xs st = Inr st'" and "P st"
    and "\<And>x s s'. P s \<Longrightarrow> body x s = Inr s' \<Longrightarrow> P s'"
  shows "P st'"
  using assms(1,2)
proof (induction xs arbitrary: st)
  case Nil
  then show ?case by simp
next
  case (Cons x xs)
  then show ?case
    by (auto split: sum.splits intro: assms(3))
qed

lemma parse_run_invariant:
  assumes run: "parse_run rawText opts = Inr st"
    and init: "P initial_state"
    and step: "\<And>s f t wt s'. P s
                 \<Longrightarrow> addEdge (opt_weighted opts) (opt_directed opts) s f t wt = Inr s' \<Longrightarrow> P s'"
    and nodes: "\<And>s n. P s \<Longrightarrow> P (s\<lparr> nodesSet := Set_add n (nodesSet s) \<rparr>)"
  shows "P st"
proof -
  let ?w = "opt_weighted opts" and ?d = "opt_directed opts"
  have tok: "P s'" if "P s" "parse_neighbor_token ?w ?d f t s = Inr s'" for f t s s'
    using that
    by (auto simp: parse_neighbor_token_def split: if_splits list.splits intro: step)
  have line: "P s'" if "P s" "parse_line ?w ?d l s = Inr s'" for l s s'
  proof (cases "CHR '':'' \<in> set l")
    case True
    with that(2) obtain nodePart neighborsPart rest where
      "for_of (parse_neighbor_token ?w ?d (trim nodePart))
         (filter_Boolean (split_ws (trim neighborsPart)))
         (s\<lparr> nodesSet := Set_add (trim nodePart) (nodesSet s) \<rparr>) = Inr s'"
      by (auto simp: parse_line_def Let_def split: list.splits)
    then show ?thesis
      by (rule for_of_invariant) (auto intro: nodes that(1) tok)
  next
    case False
    with that show ?thesis
      by (auto simp: parse_line_def Let_def split: list.splits intro: step)
  qed
  have entry: "P s'" if "P s" "parse_edge_entry ?w ?d e s = Inr s'" for e s s'
    using that
    by (auto simp: parse_edge_entry_def split: json.splits list.splits sum.splits intro: step)
  have nv: "P s'" if "P s" "parse_neighbor_value ?w ?d i v s = Inr s'" for i v s s'
    using that
    by (auto simp: parse_neighbor_value_def split: sum.splits intro: step)
  have row: "P s'" if "P s" "parse_adj_row ?w ?d r s = Inr s'" for r s s'
  proof (cases r)
    case (Pair i v)
    show ?thesis
    proof (cases v)
      case (JArr neigh)
      with Pair that(2) have "for_of (parse_neighbor_value ?w ?d i) neigh s = Inr s'"
        by (simp add: parse_adj_row_def)
      then show ?thesis
        by (rule for_of_invariant) (auto intro: that(1) nv)
    qed (use Pair that in \<open>auto simp: parse_adj_row_def\<close>)
  qed
  show ?thesis
  proof (cases "(if opt_inputMode opts = [] then ''plain'' else opt_inputMode opts) = ''array''")
    case True
    with run have "parse_array ?w ?d rawText initial_state = Inr st"
      by (simp add: parse_run_def Let_def)
    then consider els where
        "for_of (parse_edge_entry ?w ?d) els initial_state = Inr st"
      | els where
        "for_of (parse_adj_row ?w ?d) (zip [0 ..< length els] els) initial_state = Inr st"
      by (auto simp: parse_array_def split: sum.splits option.splits json.splits if_splits)
    then show ?thesis
    proof cases
      case 1
      then show ?thesis by (rule for_of_invariant) (auto intro: init entry)
    next
      case 2
      then show ?thesis by (rule for_of_invariant) (auto intro: init row)
    qed
  next
    case False
    with run have "for_of (parse_line ?w ?d)
        (filter (\<lambda>l. l \<noteq> []) (map trim (split_char (CHR 0x0A) rawText))) initial_state = Inr st"
      by (simp add: parse_run_def parse_plain_def Let_def)
    then show ?thesis by (rule for_of_invariant) (auto intro: init line)
  qed
qed

lemma addEdge_edgesArr:
  "addEdge w d st f t wt = Inr st' \<Longrightarrow>
     edgeIdCounter st' = Suc (edgeIdCounter st)
     \<and> (\<exists>e. edgesArr st' = edgesArr st @ [e] \<and> edge_id e = edgeIdCounter st
              \<and> edge_from e = f \<and> edge_to e = t)"
  by (auto simp: addEdge_def Let_def split: sum.splits if_splits)

lemma addEdge_adjacency:
  assumes "addEdge w d st f t wt = Inr st'"
  shows "\<exists>w1 adj1. isFinite w1
     \<and> adjacency_push (adjacency st) f
          \<lparr> adj_to = t, adj_weight = w1, adj_edgeId = edgeIdCounter st \<rparr> = Inr adj1
     \<and> (if d then adjacency st' = adj1
         else adjacency_push adj1 t
                \<lparr> adj_to = f, adj_weight = w1, adj_edgeId = edgeIdCounter st \<rparr>
              = Inr (adjacency st'))"
proof (cases "isFinite (Number_of_weight wt)")
  case True
  with assms show ?thesis
    by (auto simp: addEdge_def Let_def split: sum.splits if_splits)
next
  case False
  with assms show ?thesis
    by (auto simp: addEdge_def Let_def split: sum.splits if_splits
             intro!: exI [where x = "Fin 1"])
qed

lemma adjacency_push_finite:
  assumes "adjacency_push adj k e = Inr adj'"
    and "isFinite (adj_weight e)"
    and "\<And>k l. adj k = Some l \<Longrightarrow> list_all (\<lambda>e. isFinite (adj_weight e)) l"
    and "adj' k' = Some l'"
  shows "list_all (\<lambda>e. isFinite (adj_weight e)) l'"
  using assms
  by (auto simp: adjacency_push_def obj_get_def split: option.splits if_splits)

lemma addEdge_finite:
  assumes "addEdge w d st f t wt = Inr st'"
    and inv: "\<And>k l. adjacency st k = Some l \<Longrightarrow> list_all (\<lambda>e. isFinite (adj_weight e)) l"
    and "adjacency st' k' = Some l'"
  shows "list_all (\<lambda>e. isFinite (adj_weight e)) l'"
proof -
  from addEdge_adjacency [OF assms(1)] obtain w1 adj1 where fin: "isFinite w1"
    and a1: "adjacency_push (adjacency st) f
           \<lparr> adj_to = t, adj_weight = w1, adj_edgeId = edgeIdCounter st \<rparr> = Inr adj1"
    and a2: "if d then adjacency st' = adj1
         else adjacency_push adj1 t
                \<lparr> adj_to = f, adj_weight = w1, adj_edgeId = edgeIdCounter st \<rparr>
              = Inr (adjacency st')"
    by blast
  have inv1: "list_all (\<lambda>e. isFinite (adj_weight e)) l" if "adj1 k = Some l" for k l
    using a1 _ inv that by (rule adjacency_push_finite) (simp add: fin)
  show ?thesis
  proof (cases d)
    case True
    with a2 assms(3) show ?thesis by (auto intro: inv1)
  next
    case False
    with a2 have "adjacency_push adj1 t
        \<lparr> adj_to = f, adj_weight = w1, adj_edgeId = edgeIdCounter st \<rparr> = Inr (adjacency st')"
      by simp
    from this _ inv1 assms(3) show ?thesis
      by (rule adjacency_push_finite) (simp add: fin)
  qed
qed

subsection \<open>The worked examples\<close>

text \<open>
  Claim C1. Parsing the text \<open>A B 4\<close>, newline, \<open>B C 1\<close> in plain-text mode, weighted
  and undirected, gives a model with the nodes A, B and C and with two edges, on which
  the shortest path from A to C is A, B, C, of distance 5, by the edges 0 and 1.
\<close>

theorem roundtrip_example:
  "(case parseGraphInput (''A B 4'' @ [CHR 0x0A] @ ''B C 1'')
            \<lparr> opt_weighted = True, opt_directed = False, opt_inputMode = ''plain'' \<rparr> of
      Inl err \<Rightarrow> False
    | Inr g \<Rightarrow>
        map node_id (gm_nodesArr g) = [''A'', ''B'', ''C'']
        \<and> set (map node_id (gm_nodesArr g)) = {''A'', ''B'', ''C''}
        \<and> length (gm_edgesArr g) = 2
        \<and> shortestPath g ''A'' ''C''
            = Some (Inr \<lparr> distance = Fin 5, path = [PStr ''A'', PStr ''B'', PStr ''C''],
                           edgeIds = [0, 1] \<rparr>))"
  by code_simp

text \<open>
  Claim C3, as stated: the array-mode input \<open>[[0,1],[1,2],[2]]\<close> gives the nodes 0, 1, 2
  and exactly the two edges 0 to 1 and 1 to 2. The statement is false: the input is an
  adjacency list, the row at position \<open>i\<close> lists the neighbours of node \<open>i\<close>, and every
  neighbour listed is an edge.
\<close>

theorem adjacency_list_example_two_edges_counterexample:
  "\<not> (case parseGraphInput ''[[0,1],[1,2],[2]]''
            \<lparr> opt_weighted = False, opt_directed = True, opt_inputMode = ''array'' \<rparr> of
        Inl err \<Rightarrow> False
      | Inr g \<Rightarrow>
          set (map node_id (gm_nodesArr g)) = {''0'', ''1'', ''2''}
          \<and> edge_ends g = [(''0'', ''1''), (''1'', ''2'')])"
  by code_simp

text \<open>
  Claim C3, amended: for every choice of the weighted and directed flags, the array-mode
  input \<open>[[0,1],[1,2],[2]]\<close> gives the nodes 0, 1, 2 and exactly five edges, with the ids
  0 to 4: 0 to 0, 0 to 1, 1 to 1, 1 to 2 and 2 to 2.
\<close>

theorem adjacency_list_example:
  "(case parseGraphInput ''[[0,1],[1,2],[2]]''
            \<lparr> opt_weighted = weighted, opt_directed = directed, opt_inputMode = ''array'' \<rparr> of
      Inl err \<Rightarrow> False
    | Inr g \<Rightarrow>
        set (map node_id (gm_nodesArr g)) = {''0'', ''1'', ''2''}
        \<and> edge_ends g = [(''0'', ''0''), (''0'', ''1''), (''1'', ''1''), (''1'', ''2''),
                          (''2'', ''2'')]
        \<and> map edge_id (gm_edgesArr g) = [0, 1, 2, 3, 4])"
proof -
  have "list_all (\<lambda>w. list_all (\<lambda>d.
      (case parseGraphInput ''[[0,1],[1,2],[2]]''
            \<lparr> opt_weighted = w, opt_directed = d, opt_inputMode = ''array'' \<rparr> of
        Inl err \<Rightarrow> False
      | Inr g \<Rightarrow>
          set (map node_id (gm_nodesArr g)) = {''0'', ''1'', ''2''}
          \<and> edge_ends g = [(''0'', ''0''), (''0'', ''1''), (''1'', ''1''), (''1'', ''2''),
                            (''2'', ''2'')]
          \<and> map edge_id (gm_edgesArr g) = [0, 1, 2, 3, 4])) [True, False]) [True, False]"
    by code_simp
  then show ?thesis
    by (cases weighted; cases directed) simp_all
qed

text \<open>
  Claim C10. In array mode the input \<open>[]\<close> makes the parser throw the error
  "Unrecognized array structure ...", whatever the weighted and directed flags; it does
  not return an empty model.
\<close>

theorem empty_array_rejected:
  "parseGraphInput ''[]''
     \<lparr> opt_weighted = weighted, opt_directed = directed, opt_inputMode = ''array'' \<rparr>
   = Inl (Error
  ''Unrecognized array structure. Expected array of edges (e.g. [[u,v],[u,v,w],...]) or adjacency-list (e.g. [[1,2],[2],[0]]).'')"
proof -
  have "list_all (\<lambda>w. list_all (\<lambda>d.
      (case parseGraphInput ''[]''
              \<lparr> opt_weighted = w, opt_directed = d, opt_inputMode = ''array'' \<rparr> of
         Inl err \<Rightarrow> err = Error
  ''Unrecognized array structure. Expected array of edges (e.g. [[u,v],[u,v,w],...]) or adjacency-list (e.g. [[1,2],[2],[0]]).''
       | Inr g \<Rightarrow> False))
      [True, False]) [True, False]"
    by code_simp
  then show ?thesis
    by (cases weighted; cases directed) (simp_all split: sum.splits)
qed

text \<open>
  Claim C4 says that an edge-list entry whose third field is not a number gets the
  default weight 1. The program stores 0: \<open>toNumberIfPossible\<close> returns \<open>null\<close>, and
  \<open>Number(null)\<close> is the finite number 0, so the test of \<open>addEdge\<close> keeps it. The
  adjacency syntax \<open>A: B-x\<close> does fall back to 1, through \<open>?? 1\<close>.
\<close>

theorem unparsable_weight_becomes_zero:
  "(case parseGraphInput ''A B x''
            \<lparr> opt_weighted = True, opt_directed = False, opt_inputMode = ''plain'' \<rparr> of
      Inl err \<Rightarrow> False
    | Inr g \<Rightarrow>
        map edge_label (gm_edgesArr g) = [Some (Fin 0)]
        \<and> gm_adjacency g ''A'' = Some [\<lparr> adj_to = ''B'', adj_weight = Fin 0, adj_edgeId = 0 \<rparr>])
   \<and> (case parseGraphInput ''A: B-x''
            \<lparr> opt_weighted = True, opt_directed = False, opt_inputMode = ''plain'' \<rparr> of
      Inl err \<Rightarrow> False
    | Inr g \<Rightarrow>
        map edge_label (gm_edgesArr g) = [Some (Fin 1)]
        \<and> gm_adjacency g ''A'' = Some [\<lparr> adj_to = ''B'', adj_weight = Fin 1, adj_edgeId = 0 \<rparr>])"
  by code_simp

text \<open>
  Claim C6 says that the shortest-path engine never throws. On the directed graph with
  the single edge from \<open>A\<close> to \<open>constructor\<close>, the search from \<open>A\<close> to a node that is
  not reached pops \<open>constructor\<close>; \<open>adjacency["constructor"]\<close> is the inherited function
  \<open>Object\<close>, truthy and not iterable, and the loop over the neighbours throws.
\<close>

theorem shortestPath_throws:
  "(case parseGraphInput ''A constructor''
            \<lparr> opt_weighted = False, opt_directed = True, opt_inputMode = ''plain'' \<rparr> of
      Inl err \<Rightarrow> False
    | Inr g \<Rightarrow> shortestPath g ''A'' ''Z'' = Some (Inl (TypeError ''neighbors is not iterable'')))"
  by code_simp

text \<open>
  Claim C2 says that on every connected undirected model with \<open>n \<ge> 1\<close> nodes \<open>primMST\<close>
  returns \<open>n - 1\<close> edge ids. The plain-text line \<open>constructor:\<close> gives a model with one
  node and no edge; \<open>adjacency["constructor"]\<close> is the inherited function \<open>Object\<close>,
  truthy and without \<open>forEach\<close>, and seeding the candidates throws instead of returning
  the empty tree.
\<close>

theorem primMST_throws_on_single_node:
  "(case parseGraphInput ''constructor:''
            \<lparr> opt_weighted = True, opt_directed = False, opt_inputMode = ''plain'' \<rparr> of
      Inl err \<Rightarrow> False
    | Inr g \<Rightarrow>
        map node_id (gm_nodesArr g) = [''constructor'']
        \<and> gm_edgesArr g = []
        \<and> (case minimumSpanningTree g None of
              Inl err \<Rightarrow> err = TypeError ''forEach is not a function''
            | Inr r \<Rightarrow> False))"
  by code_simp

subsection \<open>The two numeric coercions compared\<close>

lemma trim_no_ws:
  assumes "s \<noteq> []" "\<not> is_ws (hd s)" "\<not> is_ws (last s)"
  shows "trim s = s"
proof -
  from assms have "dropWhile is_ws s = s"
    by (simp add: dropWhile_eq_self_iff)
  moreover from assms have "dropWhile is_ws (rev s) = rev s"
    by (simp add: dropWhile_eq_self_iff hd_rev)
  ultimately show ?thesis
    by (simp add: trim_def)
qed

lemma trim_idem: "trim (trim s) = trim s"
proof (cases "trim s = []")
  case True
  have "trim [] = []" by (simp add: trim_def)
  with True show ?thesis by simp
next
  case False
  define a where "a = dropWhile is_ws s"
  define b where "b = dropWhile is_ws (rev a)"
  have t: "trim s = rev b"
    by (simp add: trim_def a_def b_def)
  with False have b: "b \<noteq> []" by simp
  then have hb: "\<not> is_ws (hd b)"
    unfolding b_def by (metis hd_dropWhile)
  from b have "rev a \<noteq> []" unfolding b_def by auto
  then have a: "a \<noteq> []" by simp
  then have ha: "\<not> is_ws (hd a)"
    unfolding a_def by (metis hd_dropWhile)
  have "\<exists>ws. rev a = ws @ b"
    unfolding b_def by (metis takeWhile_dropWhile_id)
  then obtain ws where "rev a = ws @ b" ..
  then have "a = rev b @ rev ws"
    by (metis rev_append rev_rev_ident)
  with b have "hd (rev b) = hd a"
    by simp
  with ha hb b show ?thesis
    unfolding t by (intro trim_no_ws) (simp_all add: last_rev)
qed

lemma Math_trunc_of_nat [simp]: "Math_trunc (Fin (of_nat n)) = Fin (of_nat n)"
  by simp

lemma Math_trunc_neg: "Math_trunc (js_neg m) = js_neg (Math_trunc m)"
proof (cases m)
  case (Fin q)
  show ?thesis
  proof (cases "q = 0")
    case True
    with Fin show ?thesis by simp
  next
    case False
    with Fin show ?thesis
      by (auto simp: ceiling_minus floor_minus)
  qed
qed simp_all

lemma Math_trunc_parseInt: "Math_trunc (parseInt s r) = parseInt s r"
  by (simp add: parseInt_def Let_def js_mul_sign_def Math_trunc_neg del: Math_trunc.simps js_neg.simps)
     (simp)


lemma literal_char_not_ws: "literal_char c \<Longrightarrow> \<not> is_ws c"
  by (auto simp: literal_char_def is_ws_def is_digit_in_def digit_value_def)

lemma all_digits_literal: "all_digits 10 ds \<Longrightarrow> list_all literal_char ds"
  by (auto simp: all_digits_def literal_char_def list_all_iff)

lemma ExponentPart_literal: "ExponentPart_opt s = Some e \<Longrightarrow> list_all literal_char s"
  by (auto simp: ExponentPart_opt_def literal_char_def split: list.splits if_splits
           dest!: all_digits_literal)

lemma takeWhile_digits_literal: "list_all literal_char (takeWhile (is_digit_in 10) s)"
  by (induction s) (auto simp: literal_char_def)

lemma list_all_takeWhile_dropWhile:
  "list_all P (takeWhile Q xs) \<Longrightarrow> list_all P (dropWhile Q xs) \<Longrightarrow> list_all P xs"
  by (metis list_all_append takeWhile_dropWhile_id)

lemma unsigned_literal_chars:
  assumes "StrUnsignedDecimalLiteral s = Some m" "s \<noteq> ''Infinity''"
  shows "list_all literal_char s"
proof -
  let ?ip = "takeWhile (is_digit_in 10) s" and ?r = "dropWhile (is_digit_in 10) s"
  have "list_all literal_char ?r"
  proof (cases ?r)
    case Nil
    show ?thesis unfolding Nil by simp
  next
    case (Cons c r2)
    show ?thesis
    proof (cases "c = CHR ''.''")
      case True
      let ?fp = "takeWhile (is_digit_in 10) r2" and ?r3 = "dropWhile (is_digit_in 10) r2"
      from assms Cons True obtain e where "ExponentPart_opt ?r3 = Some e"
        by (auto simp: StrUnsignedDecimalLiteral_def Let_def split: if_splits option.splits)
      then have "list_all literal_char ?r3" by (rule ExponentPart_literal)
      with takeWhile_digits_literal [of r2] have "list_all literal_char r2"
        by (rule list_all_takeWhile_dropWhile)
      with Cons True show ?thesis by (simp add: literal_char_def)
    next
      case False
      with assms Cons obtain e where "ExponentPart_opt ?r = Some e"
        by (auto simp: StrUnsignedDecimalLiteral_def Let_def split: if_splits option.splits)
      then show ?thesis by (rule ExponentPart_literal)
    qed
  qed
  with takeWhile_digits_literal [of s] show ?thesis
    by (rule list_all_takeWhile_dropWhile)
qed

lemma unsigned_literal_nonempty: "StrUnsignedDecimalLiteral [] = None"
  by (simp add: StrUnsignedDecimalLiteral_def)

lemma unsigned_literal_trim:
  assumes "StrUnsignedDecimalLiteral s = Some m"
  shows "trim s = s"
proof (cases "s = ''Infinity''")
  case True
  then show ?thesis by (simp add: trim_def is_ws_def)
next
  case False
  from assms have ne: "s \<noteq> []"
    by (auto simp: unsigned_literal_nonempty)
  from unsigned_literal_chars [OF assms False] have "list_all (\<lambda>c. \<not> is_ws c) s"
    by (auto simp: list_all_iff dest: literal_char_not_ws)
  with ne show ?thesis
    by (intro trim_no_ws) (auto simp: list_all_iff)
qed

lemma unsigned_literal_plus: "StrUnsignedDecimalLiteral (CHR ''+'' # r) = None"
  by (simp add: StrUnsignedDecimalLiteral_def is_digit_in_def digit_value_def)

lemma unsigned_literal_minus: "StrUnsignedDecimalLiteral (CHR ''-'' # r) = None"
  by (simp add: StrUnsignedDecimalLiteral_def is_digit_in_def digit_value_def)

lemma unsigned_literal_prefixed:
  assumes "c1 = CHR ''x'' \<or> c1 = CHR ''X'' \<or> c1 = CHR ''b'' \<or> c1 = CHR ''B''
           \<or> c1 = CHR ''o'' \<or> c1 = CHR ''O''"
  shows "StrUnsignedDecimalLiteral (CHR ''0'' # c1 # r) = None"
  using assms
  by (elim disjE)
     (simp_all add: StrUnsignedDecimalLiteral_def is_digit_in_def digit_value_def
                    ExponentPart_opt_def)


lemma unsigned_literal_Number:
  assumes "StrUnsignedDecimalLiteral s = Some m"
  shows "\<not> hex_re s \<and> \<not> bin_re s \<and> Number_of_string s = m"
proof -
  from assms obtain c r where s: "s = c # r"
    by (cases s) (auto simp: unsigned_literal_nonempty)
  from assms s have c: "c \<noteq> CHR ''+''" "c \<noteq> CHR ''-''"
    using unsigned_literal_plus [of r] unsigned_literal_minus [of r] by auto
  have pre: False
    if "s = CHR ''0'' # c1 # rr"
      and "c1 = CHR ''x'' \<or> c1 = CHR ''X'' \<or> c1 = CHR ''b'' \<or> c1 = CHR ''B''
           \<or> c1 = CHR ''o'' \<or> c1 = CHR ''O''" for c1 rr
    using assms that unsigned_literal_prefixed [of c1 rr] by simp
  have nd: "NonDecimalIntegerLiteral s = None"
  proof (rule ccontr)
    assume "NonDecimalIntegerLiteral s \<noteq> None"
    then obtain c1 rr where "s = CHR ''0'' # c1 # rr"
      "c1 = CHR ''x'' \<or> c1 = CHR ''X'' \<or> c1 = CHR ''b'' \<or> c1 = CHR ''B''
           \<or> c1 = CHR ''o'' \<or> c1 = CHR ''O''"
      by (auto simp: NonDecimalIntegerLiteral_def split: list.splits if_splits)
    then show False by (rule pre)
  qed
  have h: "\<not> hex_re s"
  proof
    assume "hex_re s"
    then obtain c1 rr where "s = CHR ''0'' # c1 # rr" "c1 = CHR ''x'' \<or> c1 = CHR ''X''"
      by (auto simp: hex_re_def split: list.splits)
    then show False by (intro pre) auto
  qed
  have b: "\<not> bin_re s"
  proof
    assume "bin_re s"
    then obtain c1 rr where "s = CHR ''0'' # c1 # rr" "c1 = CHR ''b'' \<or> c1 = CHR ''B''"
      by (auto simp: bin_re_def split: list.splits)
    then show False by (intro pre) auto
  qed
  have "Number_of_string s = m"
    using assms nd c
    by (simp add: Number_of_string_def unsigned_literal_trim [OF assms] s [symmetric])
       (simp add: s)
  with h b show ?thesis by simp
qed

text \<open>
  Claim C5, as stated: on every string token, \<open>toNumberIfPossible\<close> and
  \<open>parseSingleNumberToken\<close> return the same integer or both fail. The statement is
  false: only the second reads a sign in front of a hexadecimal or binary literal, and
  only the second truncates.
\<close>

theorem coercions_differ_counterexample:
  "\<not> (toNumberIfPossible (JStr ''-0x10'') = parseSingleNumberToken ''-0x10'')
   \<and> toNumberIfPossible (JStr ''-0x10'') = None
   \<and> parseSingleNumberToken ''-0x10'' = Some (Fin (- 16))
   \<and> toNumberIfPossible (JStr ''1.5'') = Some (Fin (3 / 2))
   \<and> parseSingleNumberToken ''1.5'' = Some (Fin 1)"
  by code_simp

text \<open>
  Claim C5, amended: on every string token for which \<open>toNumberIfPossible\<close> returns a
  number \<open>v\<close>, \<open>parseSingleNumberToken\<close> returns \<open>Math.trunc(v)\<close>, that is \<open>v\<close> itself
  when \<open>v\<close> is an integer.
\<close>

theorem coercion_accepted_by_normalizer:
  assumes "toNumberIfPossible (JStr tok) = Some v"
  shows "parseSingleNumberToken tok = Some (Math_trunc v)"
proof -
  define s where "s = trim tok"
  have ts: "trim s = s" by (simp add: s_def trim_idem)
  from assms have ne: "s \<noteq> []"
    by (auto simp: toNumberIfPossible_def s_def Let_def split: if_splits)
  then obtain c r where s: "s = c # r" by (cases s) auto
  consider (hex) "hex_re s" | (bin) "\<not> hex_re s" "bin_re s" | (dec) "\<not> hex_re s" "\<not> bin_re s"
    by blast
  then show ?thesis
  proof cases
    case hex
    with assms ne have v: "v = parseInt s 16"
      by (auto simp: toNumberIfPossible_def s_def [symmetric] Let_def)
    from hex s have "c = CHR ''0''" by (auto simp: hex_re_def split: list.splits)
    with hex s v show ?thesis
      by (simp add: parseSingleNumberToken_def s_def [symmetric] Let_def js_mul_sign_def
                    Math_trunc_parseInt)
  next
    case bin
    with assms ne have v: "v = parseInt s 2"
      by (auto simp: toNumberIfPossible_def s_def [symmetric] Let_def)
    from bin s have "c = CHR ''0''" by (auto simp: bin_re_def split: list.splits)
    with bin s v show ?thesis
      by (simp add: parseSingleNumberToken_def s_def [symmetric] Let_def js_mul_sign_def
                    Math_trunc_parseInt)
  next
    case dec
    with assms ne have v: "v = Number_of_string s" and fin: "isFinite (Number_of_string s)"
      by (auto simp: toNumberIfPossible_def s_def [symmetric] Let_def split: if_splits)
    show ?thesis
    proof (cases "c = CHR ''-'' \<or> c = CHR ''+''")
      case False
      with dec s v fin show ?thesis
        by (simp add: parseSingleNumberToken_def s_def [symmetric] Let_def js_mul_sign_def)
    next
      case True
      with fin s ts obtain m where m: "StrUnsignedDecimalLiteral r = Some m"
        by (auto simp: Number_of_string_def split: option.splits)
      from unsigned_literal_Number [OF m]
      have r: "\<not> hex_re r" "\<not> bin_re r" "Number_of_string r = m" by simp_all
      from True show ?thesis
      proof
        assume c: "c = CHR ''-''"
        with s ts m have vm: "v = js_neg m"
          by (simp add: v Number_of_string_def)
        with fin v have "isFinite m" by (cases m) simp_all
        with c s r vm show ?thesis
          by (simp add: parseSingleNumberToken_def s_def [symmetric] Let_def js_mul_sign_def
                        Math_trunc_neg del: js_neg.simps Math_trunc.simps)
      next
        assume c: "c = CHR ''+''"
        with s ts m have vm: "v = m"
          by (simp add: v Number_of_string_def)
        with fin v have "isFinite m" by simp
        with c s r vm show ?thesis
          by (simp add: parseSingleNumberToken_def s_def [symmetric] Let_def js_mul_sign_def
                   del: Math_trunc.simps)
      qed
    qed
  qed
qed

theorem coercion_accepted_by_normalizer_witness:
  "toNumberIfPossible (JStr '' 0x1F '') = Some (Fin 31)
   \<and> parseSingleNumberToken '' 0x1F '' = Some (Math_trunc (Fin 31))"
proof -
  have h: "toNumberIfPossible (JStr '' 0x1F '') = Some (Fin 31)" by code_simp
  from coercion_accepted_by_normalizer [OF h] h show ?thesis by simp
qed

subsection \<open>Edge ids and weights of every parse\<close>

lemma extends_refl: "extends st [] st"
  by (simp add: extends_def)

lemma extends_nodes: "extends (st\<lparr> nodesSet := ns \<rparr>) es st' = extends st es st'"
  by (simp add: extends_def edge_ends_of_def)

lemma extends_trans:
  assumes "extends s es s1" "extends s1 fs s2"
  shows "extends s (es @ fs) s2"
proof -
  have "[edgeIdCounter s ..< edgeIdCounter s + length es + length fs]
          = [edgeIdCounter s ..< edgeIdCounter s + length es]
            @ [edgeIdCounter s + length es ..< edgeIdCounter s + length es + length fs]"
    by (metis le_add1 upt_add_eq_append)
  with assms show ?thesis
    by (simp add: extends_def add.assoc)
qed

lemma addEdge_extends:
  assumes "addEdge w d st f t wt = Inr st'"
  shows "extends st [(f, t)] st'"
  using assms
  by (auto simp: addEdge_def Let_def extends_def edge_ends_of_def split: sum.splits if_splits)

lemma for_of_collect:
  assumes run: "for_of body xs st = Inr st'"
    and step: "\<And>x s s'. body x s = Inr s' \<Longrightarrow> \<exists>es. f x = Inr es \<and> extends s es s'"
  shows "\<exists>es. collect f xs = Inr es \<and> extends st es st'"
  using run
proof (induction xs arbitrary: st)
  case Nil
  then show ?case by (simp add: extends_refl)
next
  case (Cons x xs)
  from Cons.prems obtain s1 where b: "body x st = Inr s1" and r: "for_of body xs s1 = Inr st'"
    by (auto split: sum.splits)
  from step [OF b] obtain es where es: "f x = Inr es" "extends st es s1" by blast
  from Cons.IH [OF r] obtain fs where fs: "collect f xs = Inr fs" "extends s1 fs st'" by blast
  from es fs show ?case
    by (auto intro: extends_trans)
qed

lemma token_edges:
  assumes p: "parse_neighbor_token w d from tok st = Inr st'"
  shows "\<exists>es. edges_of_token from tok = Inr es \<and> extends st es st'"
proof (cases "tok = []")
  case True
  with p show ?thesis
    by (simp add: parse_neighbor_token_def edges_of_token_def extends_refl)
next
  case ne: False
  show ?thesis
  proof (cases "CHR ''-'' \<in> set tok")
    case True
    with ne p obtain vRaw wRaw rest wt where
      sp: "split_char (CHR ''-'') tok = vRaw # wRaw # rest"
      and a: "addEdge w d st from (trim vRaw) wt = Inr st'"
      by (auto simp: parse_neighbor_token_def split: list.splits)
    from addEdge_extends [OF a] ne True sp show ?thesis
      by (simp add: edges_of_token_def)
  next
    case False
    with ne p have a: "addEdge w d st from (trim tok) WUndefined = Inr st'"
      by (simp add: parse_neighbor_token_def)
    from addEdge_extends [OF a] ne False show ?thesis
      by (simp add: edges_of_token_def)
  qed
qed

lemma line_edges:
  assumes p: "parse_line w d l st = Inr st'"
  shows "\<exists>es. edges_of_line l = Inr es \<and> extends st es st'"
proof (cases "CHR '':'' \<in> set l")
  case True
  with p obtain nodePart neighborsPart rest where
    sp: "split_char (CHR '':'') l = nodePart # neighborsPart # rest"
    and run: "for_of (parse_neighbor_token w d (trim nodePart))
         (filter_Boolean (split_ws (trim neighborsPart)))
         (st\<lparr> nodesSet := Set_add (trim nodePart) (nodesSet st) \<rparr>) = Inr st'"
    by (auto simp: parse_line_def Let_def split: list.splits)
  have "\<exists>es. collect (edges_of_token (trim nodePart))
       (filter_Boolean (split_ws (trim neighborsPart))) = Inr es
       \<and> extends (st\<lparr> nodesSet := Set_add (trim nodePart) (nodesSet st) \<rparr>) es st'"
    using run by (rule for_of_collect) (rule token_edges)
  with True sp show ?thesis
    by (simp add: edges_of_line_def extends_nodes)
next
  case False
  show ?thesis
  proof (cases "filter_Boolean (split_ws l)")
    case Nil
    with False p show ?thesis
      by (simp add: parse_line_def edges_of_line_def Let_def extends_refl)
  next
    case (Cons u r)
    show ?thesis
    proof (cases r)
      case Nil
      with Cons False p show ?thesis
        by (simp add: parse_line_def edges_of_line_def Let_def extends_refl)
    next
      case (Cons v rest)
      with \<open>filter_Boolean (split_ws l) = u # r\<close> False p obtain wt where
        a: "addEdge w d st u v wt = Inr st'"
        by (simp add: parse_line_def Let_def)
      from addEdge_extends [OF a] Cons \<open>filter_Boolean (split_ws l) = u # r\<close> False
      show ?thesis
        by (simp add: edges_of_line_def)
    qed
  qed
qed

lemma entry_edges:
  assumes p: "parse_edge_entry w d e st = Inr st'"
  shows "\<exists>es. edges_of_entry e = Inr es \<and> extends st es st'"
proof -
  from p obtain uRaw vRaw rest where e: "e = JArr (uRaw # vRaw # rest)"
    by (auto simp: parse_edge_entry_def split: json.splits list.splits)
  with p obtain u v wt where u: "String_of_json uRaw = Inr u" and v: "String_of_json vRaw = Inr v"
    and a: "addEdge w d st u v wt = Inr st'"
    by (auto simp: parse_edge_entry_def split: sum.splits)
  from addEdge_extends [OF a] e u v show ?thesis
    by (simp add: edges_of_entry_def)
qed

lemma neighbor_edges:
  assumes p: "parse_neighbor_value w d i v st = Inr st'"
  shows "\<exists>es. edges_of_neighbor i v = Inr es \<and> extends st es st'"
proof -
  from p obtain t where t: "String_of_json v = Inr t"
    and a: "addEdge w d st (string_of_nat i) t WUndefined = Inr st'"
    by (auto simp: parse_neighbor_value_def split: sum.splits)
  from addEdge_extends [OF a] t show ?thesis
    by (simp add: edges_of_neighbor_def)
qed

lemma row_edges:
  assumes "parse_adj_row w d r st = Inr st'"
  shows "\<exists>es. edges_of_row r = Inr es \<and> extends st es st'"
proof (cases r)
  case (Pair i v)
  show ?thesis
  proof (cases v)
    case (JArr neigh)
    with Pair assms have "for_of (parse_neighbor_value w d i) neigh st = Inr st'"
      by (simp add: parse_adj_row_def)
    then have "\<exists>es. collect (edges_of_neighbor i) neigh = Inr es \<and> extends st es st'"
      by (rule for_of_collect) (rule neighbor_edges)
    then show ?thesis by (simp add: edges_of_row_def Pair JArr)
  qed (use Pair assms in \<open>auto simp: parse_adj_row_def edges_of_row_def extends_refl\<close>)
qed

lemma parse_run_edges:
  assumes run: "parse_run rawText opts = Inr st"
  shows "\<exists>es. edges_of_input rawText opts = Inr es \<and> extends initial_state es st"
proof (cases "(if opt_inputMode opts = [] then ''plain'' else opt_inputMode opts) = ''array''")
  case True
  with run have pa: "parse_array (opt_weighted opts) (opt_directed opts) rawText initial_state = Inr st"
    by (simp add: parse_run_def Let_def)
  then obtain p v parsed els where
    a: "array_mode_parsed rawText = Inr p"
      "(case p of None \<Rightarrow> None | Some v \<Rightarrow> if js_truthy v then Some v else None) = Some v"
      "array_of_object v = Inr parsed" "parsed = JArr els"
    by (auto simp: parse_array_def split: sum.splits option.splits json.splits if_splits)
  from pa a consider
      (edges) "els \<noteq> [] \<and> list_all is_edge_entry els"
        "for_of (parse_edge_entry (opt_weighted opts) (opt_directed opts)) els initial_state = Inr st"
    | (rows) "\<not> (els \<noteq> [] \<and> list_all is_edge_entry els)" "els \<noteq> [] \<and> list_all Array_isArray els"
        "for_of (parse_adj_row (opt_weighted opts) (opt_directed opts))
           (zip [0 ..< length els] els) initial_state = Inr st"
    by (auto simp: parse_array_def split: if_splits)
  then show ?thesis
  proof cases
    case edges
    have "\<exists>es. collect edges_of_entry els = Inr es \<and> extends initial_state es st"
      using edges(2) by (rule for_of_collect) (rule entry_edges)
    then obtain es where "collect edges_of_entry els = Inr es" "extends initial_state es st"
      by blast
    with True a edges(1) show ?thesis
      by (auto simp: edges_of_input_def)
  next
    case rows
    have "\<exists>es. collect edges_of_row (zip [0 ..< length els] els) = Inr es
            \<and> extends initial_state es st"
      using rows(3) by (rule for_of_collect) (rule row_edges)
    then obtain es where "collect edges_of_row (zip [0 ..< length els] els) = Inr es"
      "extends initial_state es st" by blast
    with True a rows(1,2) show ?thesis
      by (auto simp: edges_of_input_def)
  qed
next
  case False
  with run have "for_of (parse_line (opt_weighted opts) (opt_directed opts))
      (filter (\<lambda>l. l \<noteq> []) (map trim (split_char (CHR 0x0A) rawText))) initial_state = Inr st"
    by (simp add: parse_run_def parse_plain_def Let_def)
  then have "\<exists>es. collect edges_of_line
      (filter (\<lambda>l. l \<noteq> []) (map trim (split_char (CHR 0x0A) rawText))) = Inr es
      \<and> extends initial_state es st"
    by (rule for_of_collect) (rule line_edges)
  then obtain es where "collect edges_of_line
      (filter (\<lambda>l. l \<noteq> []) (map trim (split_char (CHR 0x0A) rawText))) = Inr es"
    "extends initial_state es st" by blast
  with False show ?thesis
    by (auto simp: edges_of_input_def)
qed

text \<open>
  Claim C8. When the parser succeeds, the edges array has one edge for each edge that the
  input asks for (each call of \<open>addEdge\<close>), in the order of the calls and with the end
  points of the call, and the ids stored in it are \<open>0, 1, ..., length - 1\<close> in that order.
\<close>

theorem edge_ids_dense:
  assumes "parseGraphInput rawText opts = Inr g"
  shows "\<exists>es. edges_of_input rawText opts = Inr es
           \<and> length (gm_edgesArr g) = length es
           \<and> map edge_id (gm_edgesArr g) = [0 ..< length es]
           \<and> map (\<lambda>e. (edge_from e, edge_to e)) (gm_edgesArr g) = es"
proof -
  from assms obtain st where run: "parse_run rawText opts = Inr st"
    and g: "gm_edgesArr g = edgesArr st"
    by (auto simp: parseGraphInput_def split: sum.splits)
  from parse_run_edges [OF run] obtain es where
    es: "edges_of_input rawText opts = Inr es" and ex: "extends initial_state es st"
    by blast
  from ex have e: "map (\<lambda>e. (edge_from e, edge_to e)) (edgesArr st) = es"
    and i: "map edge_id (edgesArr st) = [0 ..< length es]"
    by (simp_all add: extends_def edge_ends_of_def initial_state_def)
  from e have "length (edgesArr st) = length es"
    by (metis length_map)
  with es e i g show ?thesis by simp
qed

theorem edge_ids_dense_witness:
  "\<not> isl (parseGraphInput (''A B 4'' @ [CHR 0x0A] @ ''B C 1'')
             \<lparr> opt_weighted = True, opt_directed = False, opt_inputMode = ''plain'' \<rparr>)
   \<and> length (gm_edgesArr (projr (parseGraphInput (''A B 4'' @ [CHR 0x0A] @ ''B C 1'')
             \<lparr> opt_weighted = True, opt_directed = False, opt_inputMode = ''plain'' \<rparr>))) = 2
   \<and> map edge_id (gm_edgesArr (projr (parseGraphInput (''A B 4'' @ [CHR 0x0A] @ ''B C 1'')
             \<lparr> opt_weighted = True, opt_directed = False, opt_inputMode = ''plain'' \<rparr>))) = [0, 1]
   \<and> map (\<lambda>e. (edge_from e, edge_to e))
        (gm_edgesArr (projr (parseGraphInput (''A B 4'' @ [CHR 0x0A] @ ''B C 1'')
             \<lparr> opt_weighted = True, opt_directed = False, opt_inputMode = ''plain'' \<rparr>)))
       = [(''A'', ''B''), (''B'', ''C'')]"
proof -
  let ?o = "\<lparr> opt_weighted = True, opt_directed = False, opt_inputMode = ''plain'' \<rparr>"
  define input where "input = ''A B 4'' @ [CHR 0x0A] @ ''B C 1''"
  define g where "g = projr (parseGraphInput input ?o)"
  have ok: "\<not> isl (parseGraphInput input ?o)" unfolding input_def by code_simp
  then have p: "parseGraphInput input ?o = Inr g" by (simp add: g_def)
  have es: "edges_of_input input ?o = Inr [(''A'', ''B''), (''B'', ''C'')]"
    unfolding input_def by code_simp
  from edge_ids_dense [OF p] es
  have "length (gm_edgesArr g) = 2 \<and> map edge_id (gm_edgesArr g) = [0, 1]
        \<and> map (\<lambda>e. (edge_from e, edge_to e)) (gm_edgesArr g) = [(''A'', ''B''), (''B'', ''C'')]"
    by (auto simp: upt_rec)
  with ok show ?thesis
    unfolding g_def input_def by simp
qed

text \<open>
  Claim C9. When the parser succeeds, every adjacency entry of the model carries a finite
  weight (never NaN, never an infinity), so the shortest-path engine never adds a NaN that
  a parsed model supplied.
\<close>

theorem adjacency_weights_finite:
  assumes "parseGraphInput rawText opts = Inr g"
    and "gm_adjacency g k = Some l"
    and "e \<in> set l"
  shows "isFinite (adj_weight e)"
proof -
  from assms(1) obtain st where run: "parse_run rawText opts = Inr st"
    and g: "gm_adjacency g = adjacency st"
    by (auto simp: parseGraphInput_def split: sum.splits)
  have "\<forall>k l. adjacency st k = Some l \<longrightarrow> list_all (\<lambda>e. isFinite (adj_weight e)) l"
    using run
  proof (rule parse_run_invariant)
    show "\<forall>k l. adjacency initial_state k = Some l
            \<longrightarrow> list_all (\<lambda>e. isFinite (adj_weight e)) l"
      by (simp add: initial_state_def)
  next
    fix s f t wt s'
    assume "\<forall>k l. adjacency s k = Some l \<longrightarrow> list_all (\<lambda>e. isFinite (adj_weight e)) l"
      and "addEdge (opt_weighted opts) (opt_directed opts) s f t wt = Inr s'"
    then show "\<forall>k l. adjacency s' k = Some l \<longrightarrow> list_all (\<lambda>e. isFinite (adj_weight e)) l"
      by (blast intro: addEdge_finite)
  qed simp
  with assms(2,3) g show ?thesis
    by (auto simp: list_all_iff)
qed

theorem adjacency_weights_finite_witness:
  "\<not> isl (parseGraphInput ''A B x''
            \<lparr> opt_weighted = False, opt_directed = False, opt_inputMode = ''plain'' \<rparr>)
   \<and> gm_adjacency (projr (parseGraphInput ''A B x''
            \<lparr> opt_weighted = False, opt_directed = False, opt_inputMode = ''plain'' \<rparr>)) ''A''
       = Some [\<lparr> adj_to = ''B'', adj_weight = Fin 0, adj_edgeId = 0 \<rparr>]
   \<and> isFinite (adj_weight \<lparr> adj_to = ''B'', adj_weight = Fin 0, adj_edgeId = 0 \<rparr>)"
proof -
  let ?r = "parseGraphInput ''A B x''
              \<lparr> opt_weighted = False, opt_directed = False, opt_inputMode = ''plain'' \<rparr>"
  let ?e = "\<lparr> adj_to = ''B'', adj_weight = Fin 0, adj_edgeId = 0 \<rparr>"
  have ok: "\<not> isl ?r" by code_simp
  then have r: "?r = Inr (projr ?r)" by simp
  have a: "gm_adjacency (projr ?r) ''A'' = Some [?e]" by code_simp
  have "?e \<in> set [?e]" by simp
  from adjacency_weights_finite [OF r a this] ok a show ?thesis by blast
qed

subsection \<open>The heap of \<open>MinHeap\<close> and a search that never ends\<close>

declare siftUp.simps [simp del]
declare siftDown.simps [simp del]

lemma finite_cmp:
  assumes "isFinite (item_priority x)" "isFinite (item_priority y)"
  shows "js_le (item_priority x) (item_priority y) = (key x \<le> key y)"
    and "js_lt (item_priority x) (item_priority y) = (key x < key y)"
  using assms
  by (cases "item_priority x"; cases "item_priority y"; auto simp: key_def)+

lemma swap_length [simp]: "length (swap a b data) = length data"
  by (simp add: swap_def)

lemma swap_mset [simp]: "mset (swap a b data) = mset data"
  by (simp add: swap_def mset_swap)

lemma swap_fin [simp]: "fin_items (swap a b data) = fin_items data"
proof -
  have "set (swap a b data) = set data"
    by (metis swap_mset set_mset_mset)
  then show ?thesis by (simp add: fin_items_def list_all_iff)
qed

lemma swap_nth:
  assumes "a < length data" "b < length data" "k < length data"
  shows "swap a b data ! k = (if k = a then data ! b else if k = b then data ! a else data ! k)"
  using assms by (auto simp: swap_def nth_list_update)

lemma siftUp_mset [simp]: "mset (siftUp data i) = mset data"
  by (induction data i rule: siftUp.induct) (subst siftUp.simps, simp add: Let_def)

lemma siftUp_length [simp]: "length (siftUp data i) = length data"
  by (metis siftUp_mset size_mset)

lemma siftDown_mset [simp]: "mset (siftDown data i) = mset data"
  by (induction data i rule: siftDown.induct) (subst siftDown.simps, simp add: Let_def)

lemma siftDown_length [simp]: "length (siftDown data i) = length data"
  by (metis siftDown_mset size_mset)

lemma parent_less: "0 < j \<Longrightarrow> parent j < j"
  by (simp add: parent_def)

lemma heap_ok_parent: "heap_ok data = (\<forall>j < length data. 0 < j \<longrightarrow> key (data ! parent j) \<le> key (data ! j))"
  by (simp add: heap_ok_def parent_def)

lemma heap_except_up_0: "heap_except_up data 0 = heap_ok data"
  by (auto simp: heap_except_up_def heap_ok_parent)

lemma heap_except_up_done:
  assumes "heap_except_up data i" "0 < i" "i < length data"
    "key (data ! parent i) \<le> key (data ! i)"
  shows "heap_ok data"
  unfolding heap_ok_parent
proof (intro allI impI)
  fix j assume "j < length data" "0 < j"
  with assms show "key (data ! parent j) \<le> key (data ! j)"
    by (cases "j = i") (auto simp: heap_except_up_def)
qed

lemma heap_except_up_step:
  assumes h: "heap_except_up data i" and i: "0 < i" "i < length data"
    and lt: "key (data ! i) < key (data ! parent i)"
  shows "heap_except_up (swap i (parent i) data) (parent i)"
proof -
  let ?p = "parent i" and ?d = "swap i (parent i) data"
  have p: "?p < i" "?p < length data" using i parent_less [of i] by auto
  have nth: "?d ! k = (if k = i then data ! ?p else if k = ?p then data ! i else data ! k)"
    if "k < length data" for k
    using swap_nth [OF i(2) p(2) that] .
  have up: "key (data ! parent j) \<le> key (data ! j)" if "j < length data" "0 < j" "j \<noteq> i" for j
    using h that by (simp add: heap_except_up_def)
  have gp: "key (data ! ?p) \<le> key (data ! c)" if "c < length data" "0 < c" "parent c = i" for c
    using h i that by (simp add: heap_except_up_def)
  have main: "key (?d ! parent j) \<le> key (?d ! j)"
    if j: "j < length data" "0 < j" "j \<noteq> ?p" for j
  proof -
    have pj: "parent j < length data" "parent j < j"
      using j parent_less [of j] by auto
    show ?thesis
    proof (cases "j = i")
      case True
      with lt p i show ?thesis by (simp add: nth)
    next
      case False
      note ji = this
      show ?thesis
      proof (cases "parent j = i")
        case True
        with gp [OF j(1,2)] j ji pj i show ?thesis by (simp add: nth)
      next
        case False
        show ?thesis
        proof (cases "parent j = ?p")
          case True
          with up [OF j(1,2) ji] lt j ji pj show ?thesis by (simp add: nth)
        next
          case False
          with up [OF j(1,2) ji] \<open>parent j \<noteq> i\<close> j ji pj show ?thesis by (simp add: nth)
        qed
      qed
    qed
  qed
  have grand: "key (?d ! parent ?p) \<le> key (?d ! c)"
    if c: "0 < ?p" "c < length data" "0 < c" "parent c = ?p" for c
  proof -
    have pp: "parent ?p < ?p" using c(1) by (rule parent_less)
    with p have ppn: "parent ?p < length data" "parent ?p \<noteq> i" "parent ?p \<noteq> ?p" by auto
    have a: "key (data ! parent ?p) \<le> key (data ! ?p)"
      using up [of ?p] p c(1) by auto
    show ?thesis
    proof (cases "c = i")
      case True
      with a ppn i show ?thesis by (simp add: nth)
    next
      case False
      from c have "c \<noteq> ?p" using parent_less [of c] by auto
      moreover from up [OF c(2,3) False] c(4) have "key (data ! ?p) \<le> key (data ! c)" by simp
      ultimately show ?thesis using a ppn False c by (simp add: nth)
    qed
  qed
  show ?thesis
    unfolding heap_except_up_def using main grand by auto
qed

lemma siftUp_heap_ok:
  assumes "heap_except_up data i" "i < length data" "fin_items data"
  shows "heap_ok (siftUp data i)"
  using assms
proof (induction data i rule: siftUp.induct)
  case (1 data i)
  show ?case
  proof (cases "0 < i")
    case False
    with "1.prems" show ?thesis
      by (subst siftUp.simps) (simp add: heap_except_up_0)
  next
    case True
    let ?p = "(i - 1) div 2"
    have pe: "?p = parent i" by (simp add: parent_def)
    have pl: "?p < length data" using True "1.prems"(2) parent_less [of i] pe by auto
    from "1.prems"(2,3) pl
    have cmp: "js_le (item_priority (data ! ?p)) (item_priority (data ! i))
               = (key (data ! ?p) \<le> key (data ! i))"
      by (intro finite_cmp) (auto simp: fin_items_def list_all_length)
    show ?thesis
    proof (cases "key (data ! ?p) \<le> key (data ! i)")
      case le: True
      with True cmp have "siftUp data i = data"
        by (subst siftUp.simps) (simp add: Let_def)
      with heap_except_up_done [OF "1.prems"(1) True "1.prems"(2)] le pe show ?thesis by simp
    next
      case gt: False
      with True cmp have eq: "siftUp data i = siftUp (swap i ?p data) ?p"
        by (subst siftUp.simps) (simp add: Let_def)
      have "heap_except_up (swap i ?p data) ?p"
        using heap_except_up_step [OF "1.prems"(1) True "1.prems"(2)] gt pe by simp
      with "1.IH" [OF True refl] gt cmp pl "1.prems"(3) eq show ?thesis
        by simp
    qed
  qed
qed

lemma heap_push_ok:
  assumes "heap_ok data" "fin_items data" "isFinite (item_priority x)"
  shows "heap_ok (heap_push data x) \<and> fin_items (heap_push data x)
         \<and> mset (heap_push data x) = mset data + {#x#}"
proof -
  have f: "fin_items (data @ [x])" using assms by (simp add: fin_items_def)
  have "heap_except_up (data @ [x]) (length data)"
    unfolding heap_except_up_def
  proof (intro conjI allI impI)
    fix j assume j: "j < length (data @ [x])" "0 < j" "j \<noteq> length data"
    then have jl: "j < length data" by simp
    with parent_less [OF j(2)] have "parent j < length data" by simp
    with jl assms(1) j(2) show "key ((data @ [x]) ! parent j) \<le> key ((data @ [x]) ! j)"
      by (simp add: nth_append heap_ok_parent)
  next
    fix c assume c: "c < length (data @ [x])" "0 < c" "parent c = length data"
    with parent_less [OF c(2)] have False by simp
    then show "key ((data @ [x]) ! parent (length data)) \<le> key ((data @ [x]) ! c)" ..
  qed
  then have "heap_ok (siftUp (data @ [x]) (length data))"
    using f by (intro siftUp_heap_ok) auto
  moreover have "set (siftUp (data @ [x]) (length data)) = set (data @ [x])"
    by (metis siftUp_mset set_mset_mset)
  ultimately show ?thesis
    using f by (simp add: heap_push_def fin_items_def list_all_iff)
qed

lemma parent_child: "0 < c \<Longrightarrow> (parent c = i) = (c = 2 * i + 1 \<or> c = 2 * i + 2)"
  by (auto simp: parent_def)

lemma smallest_of_props:
  assumes f: "fin_items data" and i: "i < length data"
  defines "s \<equiv> smallest_of data i"
  shows "key (data ! s) \<le> key (data ! i)"
    and "s \<noteq> i \<Longrightarrow> s < length data \<and> parent s = i \<and> 0 < s \<and> key (data ! s) < key (data ! i)"
    and "\<And>c. c < length data \<Longrightarrow> 0 < c \<Longrightarrow> parent c = i \<Longrightarrow> key (data ! s) \<le> key (data ! c)"
proof -
  let ?l = "2 * i + 1" and ?r = "2 * i + 2"
  have cmp: "js_lt (item_priority (data ! a)) (item_priority (data ! b))
             = (key (data ! a) < key (data ! b))"
    if "a < length data" "b < length data" for a b
    using f that by (intro finite_cmp) (auto simp: fin_items_def list_all_length)
  define s1 where "s1 = (if ?l < length data \<and> key (data ! ?l) < key (data ! i) then ?l else i)"
  have s1: "s1 < length data" "s1 = i \<or> s1 = ?l" "key (data ! s1) \<le> key (data ! i)"
    "?l < length data \<Longrightarrow> key (data ! s1) \<le> key (data ! ?l)"
    using i by (auto simp: s1_def)
  have s: "s = (if ?r < length data \<and> key (data ! ?r) < key (data ! s1) then ?r else s1)"
    using i cmp s1(1) by (auto simp: s_def smallest_of_def Let_def s1_def)
  show "key (data ! s) \<le> key (data ! i)"
    using s1 by (auto simp: s)
  show "s < length data \<and> parent s = i \<and> 0 < s \<and> key (data ! s) < key (data ! i)" if "s \<noteq> i"
    using that s1 i by (auto simp: s s1_def parent_def split: if_splits)
  show "key (data ! s) \<le> key (data ! c)" if c: "c < length data" "0 < c" "parent c = i" for c
  proof -
    from c have "c = ?l \<or> c = ?r" by (simp add: parent_child)
    then show ?thesis
    proof
      assume "c = ?l"
      with c s1 show ?thesis by (auto simp: s)
    next
      assume "c = ?r"
      with c s1 show ?thesis by (auto simp: s)
    qed
  qed
qed

lemma heap_except_down_done:
  assumes "heap_except_down data i" "i < length data" "fin_items data" "smallest_of data i = i"
  shows "heap_ok data"
  unfolding heap_ok_parent
proof (intro allI impI)
  fix j assume j: "j < length data" "0 < j"
  show "key (data ! parent j) \<le> key (data ! j)"
  proof (cases "parent j = i")
    case True
    with smallest_of_props(3) [OF assms(3,2) j] assms(4) show ?thesis by simp
  next
    case False
    with assms(1) j show ?thesis by (simp add: heap_except_down_def)
  qed
qed

lemma heap_except_down_step:
  assumes h: "heap_except_down data i" and i: "i < length data" and f: "fin_items data"
    and ne: "smallest_of data i \<noteq> i"
  shows "heap_except_down (swap i (smallest_of data i) data) (smallest_of data i)"
proof -
  let ?s = "smallest_of data i" and ?d = "swap i (smallest_of data i) data"
  from smallest_of_props(2) [OF f i ne]
  have s: "?s < length data" "parent ?s = i" "0 < ?s" "key (data ! ?s) < key (data ! i)"
    by simp_all
  have ilt: "i < ?s" using parent_less [OF s(3)] s(2) by simp
  have nth: "?d ! k = (if k = i then data ! ?s else if k = ?s then data ! i else data ! k)"
    if "k < length data" for k
    using swap_nth [OF i s(1) that] .
  have down: "key (data ! parent j) \<le> key (data ! j)"
    if "j < length data" "0 < j" "parent j \<noteq> i" for j
    using h that by (simp add: heap_except_down_def)
  have gp: "key (data ! parent i) \<le> key (data ! c)"
    if "0 < i" "c < length data" "0 < c" "parent c = i" for c
    using h that by (simp add: heap_except_down_def)
  have main: "key (?d ! parent j) \<le> key (?d ! j)"
    if j: "j < length data" "0 < j" "parent j \<noteq> ?s" for j
  proof -
    have pj: "parent j < length data" "parent j < j"
      using j parent_less [of j] by auto
    show ?thesis
    proof (cases "parent j = i")
      case True
      show ?thesis
      proof (cases "j = ?s")
        case True
        with s i ilt \<open>parent j = i\<close> show ?thesis by (simp add: nth)
      next
        case False
        from smallest_of_props(3) [OF f i j(1,2) True] have "key (data ! ?s) \<le> key (data ! j)" .
        with True False pj j i show ?thesis by (simp add: nth)
      qed
    next
      case False
      note npi = this
      from s(2) False have js: "j \<noteq> ?s" by auto
      show ?thesis
      proof (cases "j = i")
        case True
        then have i0: "0 < i" using j by simp
        have ppi: "parent i < i" using i0 by (rule parent_less)
        from gp [OF i0 s(1) s(3) s(2)] have "key (data ! parent i) \<le> key (data ! ?s)" .
        with True ppi ilt i show ?thesis by (simp add: nth)
      next
        case False
        with down [OF j(1,2) npi] npi j(3) js pj j show ?thesis by (simp add: nth)
      qed
    qed
  qed
  have grand: "key (?d ! parent ?s) \<le> key (?d ! c)"
    if c: "c < length data" "0 < c" "parent c = ?s" for c
  proof -
    have cs: "?s < c" using parent_less [OF c(2)] c(3) by simp
    from c s(2) ilt have "parent c \<noteq> i" by simp
    from down [OF c(1,2) this] c(3) have "key (data ! ?s) \<le> key (data ! c)" by simp
    with cs ilt s i c show ?thesis by (simp add: nth)
  qed
  show ?thesis
    unfolding heap_except_down_def using main grand by auto
qed

lemma siftDown_heap_ok:
  assumes "heap_except_down data i" "i < length data" "fin_items data"
  shows "heap_ok (siftDown data i)"
  using assms
proof (induction data i rule: siftDown.induct)
  case (1 data i)
  let ?s = "smallest_of data i"
  show ?case
  proof (cases "?s = i")
    case True
    then have "siftDown data i = data"
      by (subst siftDown.simps) (simp add: Let_def)
    with heap_except_down_done [OF "1.prems" True] show ?thesis by simp
  next
    case False
    then have eq: "siftDown data i = siftDown (swap i ?s data) ?s"
      by (subst siftDown.simps) (simp add: Let_def)
    from smallest_of_props(2) [OF "1.prems"(3,2) False] have "?s < length data" by simp
    with "1.IH" [OF refl False] heap_except_down_step [OF "1.prems" False] "1.prems"(3) eq
    show ?thesis by simp
  qed
qed

lemma heap_root_min:
  assumes "heap_ok data" "j < length data"
  shows "key (data ! 0) \<le> key (data ! j)"
  using assms(2)
proof (induction j rule: less_induct)
  case (less j)
  show ?case
  proof (cases "j = 0")
    case True
    then show ?thesis by simp
  next
    case False
    then have j: "0 < j" by simp
    from parent_less [OF j] less.prems have "parent j < length data" by simp
    from less.IH [OF parent_less [OF j] this] assms(1) j less.prems show ?thesis
      by (auto simp: heap_ok_parent intro: order_trans)
  qed
qed

lemma siftDown_Nil [simp]: "siftDown [] 0 = []"
  by (subst siftDown.simps) (simp add: smallest_of_def)

lemma fin_items_mset: "mset a = mset b \<Longrightarrow> fin_items a = fin_items b"
  by (metis fin_items_def list_all_iff set_mset_mset)

lemma heap_pop_props:
  assumes ok: "heap_ok data" and f: "fin_items data" and ne: "data \<noteq> []"
  shows "\<exists>rest. heap_pop data = (Some (data ! 0), rest)
           \<and> mset data = add_mset (data ! 0) (mset rest)
           \<and> heap_ok rest \<and> fin_items rest
           \<and> (\<forall>x \<in> set data. key (data ! 0) \<le> key x)"
proof -
  define n where "n = length data"
  define d1 where "d1 = swap 0 (n - 1) data"
  define d2 where "d2 = butlast d1"
  have n: "0 < n" using ne by (simp add: n_def)
  have l1: "length d1 = n" by (simp add: d1_def n_def)
  then have d1ne: "d1 \<noteq> []" using n by auto
  have nth1: "d1 ! k = (if k = 0 then data ! (n - 1) else if k = n - 1 then data ! 0 else data ! k)"
    if "k < n" for k
    using that n swap_nth [of 0 data "n - 1" k] by (auto simp: d1_def n_def)
  have last: "last d1 = data ! 0"
    using d1ne l1 n nth1 [of "n - 1"] by (auto simp: last_conv_nth)
  have l2: "length d2 = n - 1" by (simp add: d2_def l1)
  have nth2: "d2 ! k = (if k = 0 then data ! (n - 1) else data ! k)" if "k < n - 1" for k
    using that nth1 [of k] by (simp add: d2_def nth_butlast l1)
  have "mset d1 = add_mset (last d1) (mset d2)"
    unfolding d2_def using d1ne by (metis append_butlast_last_id mset_append mset_single_iff_right
        union_mset_add_mset_right add.right_neutral mset.simps(1,2) union_commute)
  moreover have "mset d1 = mset data"
    by (simp add: d1_def)
  ultimately have ms: "mset data = add_mset (data ! 0) (mset d2)"
    by (simp add: last)
  have f2: "fin_items d2"
  proof -
    have "set d2 \<subseteq> set data"
      using ms by (metis set_mset_mset set_mset_add_mset_insert subset_insertI)
    with f show ?thesis by (auto simp: fin_items_def list_all_iff)
  qed
  have ok2: "heap_ok (siftDown d2 0)"
  proof (cases "d2 = []")
    case True
    then show ?thesis by (simp add: heap_ok_def)
  next
    case False
    have "heap_except_down d2 0"
      unfolding heap_except_down_def
    proof (intro conjI allI impI)
      fix j assume j: "j < length d2" "0 < j" "parent j \<noteq> 0"
      with parent_less [OF j(2)] have "parent j < n - 1" by (simp add: l2)
      moreover from j have "j < n" by (simp add: l2)
      ultimately show "key (d2 ! parent j) \<le> key (d2 ! j)"
        using ok j by (simp add: nth2 l2 heap_ok_parent n_def)
    qed simp
    with False f2 show ?thesis by (intro siftDown_heap_ok) auto
  qed
  have "heap_pop data = (Some (last d1), siftDown (butlast d1) 0)"
    using ne by (simp add: heap_pop_def Let_def d1_def n_def)
  then have pop: "heap_pop data = (Some (data ! 0), siftDown d2 0)"
    by (simp only: last d2_def)
  have min: "\<forall>x \<in> set data. key (data ! 0) \<le> key x"
    using heap_root_min [OF ok] by (auto simp: in_set_conv_nth)
  from ms have "mset data = add_mset (data ! 0) (mset (siftDown d2 0))" by simp
  moreover have "fin_items (siftDown d2 0)"
    using f2 fin_items_mset [of "siftDown d2 0" d2] by simp
  ultimately show ?thesis using pop ok2 min by blast
qed

lemma dist_get_own: "m k = Some x \<Longrightarrow> dist_get m k = x"
  by (simp add: dist_get_def obj_get_def)

lemma dist_get_upd_other: "k \<noteq> k' \<Longrightarrow> dist_get (m(k' \<mapsto> x)) k = dist_get m k"
  by (simp add: dist_get_def obj_get_def)

lemma relax_improves:
  assumes "ds_dist st u = Some (Fin d)" "adj_weight e = Fin w" "adj_to e = v"
    "js_lt (Fin (d + w)) (dist_get (ds_dist st) v)" "v \<noteq> ''__proto__''"
  shows "relax u e st =
           \<lparr> ds_dist = (ds_dist st)(v \<mapsto> Fin (d + w)),
             ds_prev = prev_set v u (ds_prev st),
             ds_pq = heap_push (ds_pq st) \<lparr> item_node = v, item_priority = Fin (d + w) \<rparr> \<rparr>"
  using assms by (simp add: relax_def Let_def dist_get_own obj_set_def)

lemma relax_keeps:
  assumes "ds_dist st u = Some (Fin d)" "adj_weight e = Fin w" "adj_to e = v"
    "\<not> js_lt (Fin (d + w)) (dist_get (ds_dist st) v)"
  shows "relax u e st = st"
  using assms by (simp add: relax_def Let_def dist_get_own)

lemma key_item [simp]: "key \<lparr> item_node = u, item_priority = Fin d \<rparr> = d"
  by (simp add: key_def)

lemma diverging_pop:
  assumes "diverging st"
  obtains u v d pq1 where
    "(u = ''B'' \<and> v = ''C'') \<or> (u = ''C'' \<and> v = ''B'')"
    "ds_dist st u = Some (Fin d)"
    "js_lt (Fin (d - 1)) (dist_get (ds_dist st) v)"
    "ds_pq st \<noteq> []"
    "heap_pop (ds_pq st) = (Some \<lparr> item_node = u, item_priority = Fin d \<rparr>, pq1)"
    "\<forall>x \<in># mset pq1. d < key x" "heap_ok pq1" "fin_items pq1"
proof -
  from assms obtain u v d rest where
    uv: "(u = ''B'' \<and> v = ''C'') \<or> (u = ''C'' \<and> v = ''B'')"
    and du: "ds_dist st u = Some (Fin d)"
    and dv: "js_lt (Fin (d - 1)) (dist_get (ds_dist st) v)"
    and ms: "mset (ds_pq st) = add_mset \<lparr> item_node = u, item_priority = Fin d \<rparr> rest"
    and gt: "\<forall>x \<in># rest. d < key x"
    and ok: "heap_ok (ds_pq st)" and f: "fin_items (ds_pq st)"
    unfolding diverging_def by blast
  let ?m = "\<lparr> item_node = u, item_priority = Fin d \<rparr>" and ?pq = "ds_pq st"
  from ms have ne: "?pq \<noteq> []" by auto
  from heap_pop_props [OF ok f ne] obtain pq1 where
    pop: "heap_pop ?pq = (Some (?pq ! 0), pq1)"
    and ms1: "mset ?pq = add_mset (?pq ! 0) (mset pq1)"
    and ok1: "heap_ok pq1" and f1: "fin_items pq1"
    and min: "\<forall>x \<in> set ?pq. key (?pq ! 0) \<le> key x"
    by blast
  have "?m \<in> set ?pq"
    using ms by (metis set_mset_mset union_single_eq_member)
  with min have le: "key (?pq ! 0) \<le> d" by fastforce
  have "?pq ! 0 \<in># add_mset ?m rest"
    using ms ne by (metis nth_mem_mset length_greater_0_conv)
  with gt le have root: "?pq ! 0 = ?m" by fastforce
  with ms ms1 have "mset pq1 = rest" by simp
  with gt have "\<forall>x \<in># mset pq1. d < key x" by simp
  with that [OF uv du dv ne] pop root ok1 f1 show thesis by simp
qed

lemma diverging_step_B:
  assumes du: "ds_dist st ''B'' = Some (Fin d)"
    and dv: "js_lt (Fin (d - 1)) (dist_get (ds_dist st) ''C'')"
    and gt: "\<forall>x \<in># mset (ds_pq st). d < key x"
    and ok: "heap_ok (ds_pq st)" and f: "fin_items (ds_pq st)"
  shows "diverging (fold (relax ''B'') [to_A, to_C] st)"
proof -
  define st2 where "st2 = relax ''B'' to_A st"
  have st2c: "ds_dist st2 ''B'' = Some (Fin d) \<and>
         dist_get (ds_dist st2) ''C'' = dist_get (ds_dist st) ''C'' \<and>
         (\<forall>x \<in># mset (ds_pq st2). d - 1 < key x) \<and> heap_ok (ds_pq st2) \<and> fin_items (ds_pq st2)"
  proof (cases "js_lt (Fin (d + 1)) (dist_get (ds_dist st) ''A'')")
    case True
    have "st2 = \<lparr> ds_dist = (ds_dist st)(''A'' \<mapsto> Fin (d + 1)),
                   ds_prev = prev_set ''A'' ''B'' (ds_prev st),
                   ds_pq = heap_push (ds_pq st) \<lparr> item_node = ''A'', item_priority = Fin (d + 1) \<rparr> \<rparr>"
      unfolding st2_def using du True
      by (intro relax_improves) (simp_all add: to_A_def)
    moreover note heap_push_ok [OF ok f, of "\<lparr> item_node = ''A'', item_priority = Fin (d + 1) \<rparr>"]
    ultimately show ?thesis
      using du gt by (auto simp: dist_get_upd_other)
  next
    case False
    have "st2 = st"
      unfolding st2_def using du False
      by (intro relax_keeps [where d = d and w = 1 and v = "''A''"]) (simp_all add: to_A_def)
    then show ?thesis
      using du gt ok f by auto
  qed
  then have st2: "ds_dist st2 ''B'' = Some (Fin d)"
    "dist_get (ds_dist st2) ''C'' = dist_get (ds_dist st) ''C''"
    "\<forall>x \<in># mset (ds_pq st2). d - 1 < key x" "heap_ok (ds_pq st2)" "fin_items (ds_pq st2)"
    by simp_all
  let ?m = "\<lparr> item_node = ''C'', item_priority = Fin (d - 1) \<rparr>"
  have "js_lt (Fin (d + - 1)) (dist_get (ds_dist st2) ''C'')"
    using dv st2(2) by simp
  then have st3: "relax ''B'' to_C st2 =
      \<lparr> ds_dist = (ds_dist st2)(''C'' \<mapsto> Fin (d + - 1)),
        ds_prev = prev_set ''C'' ''B'' (ds_prev st2),
        ds_pq = heap_push (ds_pq st2) \<lparr> item_node = ''C'', item_priority = Fin (d + - 1) \<rparr> \<rparr>"
    using st2(1) by (intro relax_improves) (simp_all add: to_C_def)
  from heap_push_ok [OF st2(4,5), of ?m]
  have push: "heap_ok (heap_push (ds_pq st2) ?m)" "fin_items (heap_push (ds_pq st2) ?m)"
    "mset (heap_push (ds_pq st2) ?m) = add_mset ?m (mset (ds_pq st2))"
    by simp_all
  have "diverging (relax ''B'' to_C st2)"
    unfolding diverging_def
    apply (rule exI [where x = "''C''"], rule exI [where x = "''B''"])
    apply (rule exI [where x = "d - 1"], rule exI [where x = "mset (ds_pq st2)"])
    using st2 push by (simp add: st3 dist_get_own)
  then show ?thesis by (simp add: st2_def)
qed

lemma diverging_step_C:
  assumes du: "ds_dist st ''C'' = Some (Fin d)"
    and dv: "js_lt (Fin (d - 1)) (dist_get (ds_dist st) ''B'')"
    and gt: "\<forall>x \<in># mset (ds_pq st). d < key x"
    and ok: "heap_ok (ds_pq st)" and f: "fin_items (ds_pq st)"
  shows "diverging (fold (relax ''C'') [to_B] st)"
proof -
  let ?m = "\<lparr> item_node = ''B'', item_priority = Fin (d - 1) \<rparr>"
  have "js_lt (Fin (d + - 1)) (dist_get (ds_dist st) ''B'')"
    using dv by simp
  then have st3: "relax ''C'' to_B st =
      \<lparr> ds_dist = (ds_dist st)(''B'' \<mapsto> Fin (d + - 1)),
        ds_prev = prev_set ''B'' ''C'' (ds_prev st),
        ds_pq = heap_push (ds_pq st) \<lparr> item_node = ''B'', item_priority = Fin (d + - 1) \<rparr> \<rparr>"
    using du by (intro relax_improves) (simp_all add: to_B_def)
  from heap_push_ok [OF ok f, of ?m]
  have push: "heap_ok (heap_push (ds_pq st) ?m)" "fin_items (heap_push (ds_pq st) ?m)"
    "mset (heap_push (ds_pq st) ?m) = add_mset ?m (mset (ds_pq st))"
    by simp_all
  have gt1: "\<forall>x \<in># mset (ds_pq st). d - 1 < key x"
    using gt by auto
  have "diverging (relax ''C'' to_B st)"
    unfolding diverging_def
    apply (rule exI [where x = "''B''"], rule exI [where x = "''C''"])
    apply (rule exI [where x = "d - 1"], rule exI [where x = "mset (ds_pq st)"])
    using du push gt1 by (simp add: st3 dist_get_own)
  then show ?thesis by simp
qed

lemma diverging_never_returns:
  assumes adjB: "adj ''B'' = Some [to_A, to_C]" and adjC: "adj ''C'' = Some [to_B]"
    and div: "diverging st"
  shows "dijkstra_loop adj ''A'' st = None"
proof (rule ccontr)
  assume "dijkstra_loop adj ''A'' st \<noteq> None"
  then obtain r where r: "dijkstra_loop adj ''A'' st = Some r" by auto
  have "\<not> (adj = adj \<and> ''A'' = ''A'' \<and> diverging st)"
  proof (rule dijkstra_loop.raw_induct
           [where P = "\<lambda>a t s y. \<not> (a = adj \<and> t = ''A'' \<and> diverging s)", OF _ r],
         goal_cases)
    case (1 loop adj' t s y)
    show ?case
    proof
      assume a: "adj' = adj \<and> t = ''A'' \<and> diverging s"
      then have ds: "diverging s" by simp
      from diverging_pop [OF ds] obtain u v d pq1 where
        uv: "(u = ''B'' \<and> v = ''C'') \<or> (u = ''C'' \<and> v = ''B'')"
        and du: "ds_dist s u = Some (Fin d)"
        and dv: "js_lt (Fin (d - 1)) (dist_get (ds_dist s) v)"
        and ne: "ds_pq s \<noteq> []"
        and pop: "heap_pop (ds_pq s) = (Some \<lparr> item_node = u, item_priority = Fin d \<rparr>, pq1)"
        and gt: "\<forall>x \<in># mset pq1. d < key x" and ok: "heap_ok pq1" and f: "fin_items pq1"
        by blast
      let ?s1 = "s\<lparr> ds_pq := pq1 \<rparr>"
      have fresh: "\<not> js_gt (Fin d) (dist_get (ds_dist ?s1) u)"
        using du by (simp add: dist_get_own js_gt_def)
      from uv show False
      proof
        assume b: "u = ''B'' \<and> v = ''C''"
        with adjB have own: "obj_get adj u = Own [to_A, to_C]" by (simp add: obj_get_def)
        from "1"(2) a ne pop fresh own b
        have "loop adj ''A'' (fold (relax ''B'') [to_A, to_C] ?s1) = Some y"
          by (simp add: Let_def)
        moreover have "diverging (fold (relax ''B'') [to_A, to_C] ?s1)"
          using du dv gt ok f b by (intro diverging_step_B [where d = d]) simp_all
        ultimately show False using "1"(1) by blast
      next
        assume c: "u = ''C'' \<and> v = ''B''"
        with adjC have own: "obj_get adj u = Own [to_B]" by (simp add: obj_get_def)
        from "1"(2) a ne pop fresh own c
        have "loop adj ''A'' (fold (relax ''C'') [to_B] ?s1) = Some y"
          by (simp add: Let_def)
        moreover have "diverging (fold (relax ''C'') [to_B] ?s1)"
          using du dv gt ok f c by (intro diverging_step_C [where d = d]) simp_all
        ultimately show False using "1"(1) by blast
      qed
    qed
  qed
  with div show False by simp
qed

lemma diverging_init: "diverging (dijkstra_init ''B'' [''A'', ''B'', ''C''])"
proof -
  let ?m = "\<lparr> item_node = ''B'', item_priority = Fin 0 \<rparr>"
  have push: "heap_push [] ?m = [?m]"
    by (simp add: heap_push_def) (subst siftUp.simps, simp)
  show ?thesis
    unfolding diverging_def
    apply (rule exI [where x = "''B''"], rule exI [where x = "''C''"])
    apply (rule exI [where x = 0], rule exI [where x = "{#}"])
    by (simp add: dijkstra_init_def Let_def obj_set_def dist_get_def obj_get_def push
                  heap_ok_def fin_items_def)
qed

text \<open>
  Claim C7, as stated: on every undirected model that the parser produces, the distance
  from \<open>x\<close> to \<open>y\<close> equals the distance from \<open>y\<close> to \<open>x\<close> for nodes reachable from each
  other. The parser accepts negative weights; on \<open>A B 1\<close>, \<open>B C -1\<close> the search from
  \<open>A\<close> to \<open>B\<close> returns the distance 1, and the search from \<open>B\<close> to \<open>A\<close> lowers the
  distances of \<open>B\<close> and \<open>C\<close> for ever and returns nothing.
\<close>

theorem distance_not_symmetric_counterexample:
  "\<not> isl (parseGraphInput (''A B 1'' @ [CHR 0x0A] @ ''B C -1'')
            \<lparr> opt_weighted = True, opt_directed = False, opt_inputMode = ''plain'' \<rparr>)
   \<and> shortestPath (projr (parseGraphInput (''A B 1'' @ [CHR 0x0A] @ ''B C -1'')
            \<lparr> opt_weighted = True, opt_directed = False, opt_inputMode = ''plain'' \<rparr>))
        ''A'' ''B''
       = Some (Inr \<lparr> distance = Fin 1, path = [PStr ''A'', PStr ''B''], edgeIds = [0] \<rparr>)
   \<and> shortestPath (projr (parseGraphInput (''A B 1'' @ [CHR 0x0A] @ ''B C -1'')
            \<lparr> opt_weighted = True, opt_directed = False, opt_inputMode = ''plain'' \<rparr>))
        ''B'' ''A''
       = None"
proof -
  let ?g = "projr (parseGraphInput (''A B 1'' @ [CHR 0x0A] @ ''B C -1'')
            \<lparr> opt_weighted = True, opt_directed = False, opt_inputMode = ''plain'' \<rparr>)"
  have ok: "\<not> isl (parseGraphInput (''A B 1'' @ [CHR 0x0A] @ ''B C -1'')
            \<lparr> opt_weighted = True, opt_directed = False, opt_inputMode = ''plain'' \<rparr>)"
    by code_simp
  have fwd: "shortestPath ?g ''A'' ''B''
       = Some (Inr \<lparr> distance = Fin 1, path = [PStr ''A'', PStr ''B''], edgeIds = [0] \<rparr>)"
    by code_simp
  have adjB: "gm_adjacency ?g ''B'' = Some [to_A, to_C]" by code_simp
  have adjC: "gm_adjacency ?g ''C'' = Some [to_B]" by code_simp
  have nodes: "map node_id (gm_nodesArr ?g) = [''A'', ''B'', ''C'']" by code_simp
  have "dijkstra_loop (gm_adjacency ?g) ''A'' (dijkstra_init ''B'' [''A'', ''B'', ''C'']) = None"
    using adjB adjC diverging_init by (rule diverging_never_returns)
  then have bwd: "shortestPath ?g ''B'' ''A'' = None"
    by (simp only: shortestPath_def dijkstraPQ_def nodes) simp
  from ok fwd bwd show ?thesis by simp
qed

subsection \<open>The search of \<open>dijkstraPQ\<close> on weights that are not negative\<close>

text \<open>
  With no negative weight the loop keeps the invariant \<open>dinv\<close>: popping a stale entry
  changes the queue only, popping a fresh one settles its node, and relaxing an entry of
  the settled node keeps every part. Each fresh pop adds a key of the distance object to
  the settled nodes, so the loop returns.
\<close>

lemma reach_nonneg:
  assumes "good_graph adj" "reach adj x v c"
  shows "0 \<le> c"
  using assms(2)
proof (induction rule: reach.induct)
  case start
  show ?case by simp
next
  case (step u c v w)
  from step.hyps(2) assms(1) have "0 \<le> w"
    by (fastforce simp: arc_def good_graph_def)
  with step.IH show ?case by simp
qed

text \<open>Every node reached by a walk is settled, or some queued entry is not above the walk.\<close>

lemma reach_settled_or_queued:
  assumes g: "good_graph adj" and inv: "dinv adj x S None st" and r: "reach adj x u c"
  shows "(u \<in> set S \<and> (\<exists>d. ds_dist st u = Some (Fin d) \<and> d \<le> c))
         \<or> (u \<notin> set S \<and> (\<exists>e \<in> set (ds_pq st). key e \<le> c))"
  using r
proof (induction rule: reach.induct)
  case start
  from inv have x0: "ds_dist st x = Some (Fin 0)" and frs: "c_frs S st"
    by (simp_all add: dinv_def c_src_def)
  show ?case
  proof (cases "x \<in> set S")
    case True
    with x0 show ?thesis by simp
  next
    case False
    with frs x0 have "\<lparr> item_node = x, item_priority = Fin 0 \<rparr> \<in> set (ds_pq st)"
      by (simp add: c_frs_def)
    then have "\<exists>e \<in> set (ds_pq st). key e \<le> 0"
      by (rule bexI [rotated]) (simp add: key_def)
    with False show ?thesis by simp
  qed
next
  case (step u c v w)
  from step.hyps(2) obtain l e where e: "adj u = Some l" "e \<in> set l" "adj_to e = v"
    "adj_weight e = Fin w"
    by (auto simp: arc_def)
  with g have w: "0 \<le> w" by (fastforce simp: good_graph_def)
  from inv have cs: "c_set adj x S None st" and frs: "c_frs S st" and ent: "c_ent S st"
    by (simp_all add: dinv_def)
  from step.IH show ?case
  proof
    assume a: "u \<in> set S \<and> (\<exists>d. ds_dist st u = Some (Fin d) \<and> d \<le> c)"
    then obtain d where d: "ds_dist st u = Some (Fin d)" "d \<le> c" by blast
    from cs a e d obtain du where du: "ds_dist st v = Some (Fin du)" "du \<le> d + w"
      by (fastforce simp: c_set_def done_of_def)
    show ?thesis
    proof (cases "v \<in> set S")
      case True
      with du d show ?thesis by auto
    next
      case False
      with frs du have "\<lparr> item_node = v, item_priority = Fin du \<rparr> \<in> set (ds_pq st)"
        by (simp add: c_frs_def)
      moreover have "key \<lparr> item_node = v, item_priority = Fin du \<rparr> \<le> c + w"
        using du d by (simp add: key_def)
      ultimately show ?thesis using False by blast
    qed
  next
    assume a: "u \<notin> set S \<and> (\<exists>e \<in> set (ds_pq st). key e \<le> c)"
    then obtain q where q: "q \<in> set (ds_pq st)" "key q \<le> c" by blast
    show ?thesis
    proof (cases "v \<in> set S")
      case False
      with q w show ?thesis by (intro disjI2) (auto intro!: bexI [of _ q])
    next
      case True
      with cs obtain dv where dv: "ds_dist st v = Some (Fin dv)"
        by (auto simp: c_set_def)
      with ent q True have "dv \<le> key q"
        by (fastforce simp: c_ent_def)
      with q w dv True show ?thesis by auto
    qed
  qed
qed

lemma fin_item_shape:
  assumes "fin_items pq" "m \<in> set pq"
  shows "m = \<lparr> item_node = item_node m, item_priority = Fin (key m) \<rparr>"
proof -
  from assms have "isFinite (item_priority m)"
    by (simp add: fin_items_def list_all_iff)
  then obtain q where "item_priority m = Fin q" by (cases "item_priority m") auto
  then show ?thesis by (simp add: key_def)
qed

lemma pop_facts:
  assumes h: "c_heap st" and ne: "ds_pq st \<noteq> []"
  obtains v p pq1 where
    "heap_pop (ds_pq st) = (Some \<lparr> item_node = v, item_priority = Fin p \<rparr>, pq1)"
    "set (ds_pq st) = insert \<lparr> item_node = v, item_priority = Fin p \<rparr> (set pq1)"
    "\<lparr> item_node = v, item_priority = Fin p \<rparr> \<notin> set pq1"
    "heap_ok pq1" "fin_items pq1" "distinct pq1"
    "\<forall>e \<in> set (ds_pq st). p \<le> key e"
proof -
  let ?pq = "ds_pq st"
  from h have ok: "heap_ok ?pq" and f: "fin_items ?pq" and di: "distinct ?pq"
    by (simp_all add: c_heap_def)
  from heap_pop_props [OF ok f ne] obtain pq1 where
    pop: "heap_pop ?pq = (Some (?pq ! 0), pq1)"
    and ms: "mset ?pq = add_mset (?pq ! 0) (mset pq1)"
    and ok1: "heap_ok pq1" and f1: "fin_items pq1"
    and min: "\<forall>x \<in> set ?pq. key (?pq ! 0) \<le> key x"
    by blast
  let ?m = "?pq ! 0"
  have mem: "?m \<in> set ?pq" using ne by simp
  from fin_item_shape [OF f mem]
  have shape: "?m = \<lparr> item_node = item_node ?m, item_priority = Fin (key ?m) \<rparr>" .
  have sets: "set ?pq = insert ?m (set pq1)"
    using ms by (metis set_mset_add_mset_insert set_mset_mset)
  have "distinct (?m # pq1)"
    using di ms by (metis distinct_count_atmost_1 mset.simps(2) set_mset_mset)
  then have d1: "?m \<notin> set pq1" "distinct pq1" by simp_all
  show thesis
    by (rule that [of "item_node ?m" "key ?m" pq1])
       (use pop shape sets d1 ok1 f1 min in \<open>simp_all\<close>)
qed

lemma pop_stale:
  assumes inv: "dinv adj x S None st"
    and pop: "set (ds_pq st) = insert \<lparr> item_node = v, item_priority = Fin p \<rparr> (set pq1)"
    and h1: "heap_ok pq1" "fin_items pq1" "distinct pq1"
    and stale: "js_gt (Fin p) (dist_get (ds_dist st) v)"
  shows "dinv adj x S None (st\<lparr> ds_pq := pq1 \<rparr>)"
proof -
  let ?m = "\<lparr> item_node = v, item_priority = Fin p \<rparr>"
  from inv have frs: "c_frs S st" and ent: "c_ent S st" by (simp_all add: dinv_def)
  have sub: "set pq1 \<subseteq> set (ds_pq st)" using pop by auto
  have "c_frs S (st\<lparr> ds_pq := pq1 \<rparr>)"
    unfolding c_frs_def
  proof (intro allI impI)
    fix v' d assume a: "ds_dist (st\<lparr> ds_pq := pq1 \<rparr>) v' = Some (Fin d)" "v' \<notin> set S"
    with frs have "\<lparr> item_node = v', item_priority = Fin d \<rparr> \<in> set (ds_pq st)"
      by (simp add: c_frs_def)
    moreover have "\<lparr> item_node = v', item_priority = Fin d \<rparr> \<noteq> ?m"
    proof
      assume "\<lparr> item_node = v', item_priority = Fin d \<rparr> = ?m"
      then have "v' = v" "d = p" by simp_all
      with a stale show False by (simp add: dist_get_def obj_get_def js_gt_def)
    qed
    ultimately show "\<lparr> item_node = v', item_priority = Fin d \<rparr> \<in> set (ds_pq (st\<lparr> ds_pq := pq1 \<rparr>))"
      using pop by auto
  qed
  moreover have "c_ent S (st\<lparr> ds_pq := pq1 \<rparr>)"
    using ent sub by (simp add: c_ent_def subset_iff)
  moreover have "c_heap (st\<lparr> ds_pq := pq1 \<rparr>)"
    using h1 by (simp add: c_heap_def)
  ultimately show ?thesis
    using inv
    by (simp add: dinv_def c_dom_def c_val_def c_src_def c_set_def c_ord_def c_prev_def)
qed

lemma pop_fresh:
  assumes g: "good_graph adj" and inv: "dinv adj x S None st"
    and pop: "set (ds_pq st) = insert \<lparr> item_node = v, item_priority = Fin p \<rparr> (set pq1)"
    and notin: "\<lparr> item_node = v, item_priority = Fin p \<rparr> \<notin> set pq1"
    and h1: "heap_ok pq1" "fin_items pq1" "distinct pq1"
    and min: "\<forall>e \<in> set (ds_pq st). p \<le> key e"
    and fresh: "\<not> js_gt (Fin p) (dist_get (ds_dist st) v)"
  shows "v \<notin> set S \<and> ds_dist st v = Some (Fin p)
         \<and> dinv adj x (v # S) (Some {}) (st\<lparr> ds_pq := pq1 \<rparr>)"
proof -
  let ?m = "\<lparr> item_node = v, item_priority = Fin p \<rparr>" and ?st = "st\<lparr> ds_pq := pq1 \<rparr>"
  from inv have dom: "c_dom adj S st" and val: "c_val adj x st" and src: "c_src x st"
    and cset: "c_set adj x S None st" and ord: "c_ord S st" and frs: "c_frs S st"
    and ent: "c_ent S st" and heap: "c_heap st" and prev: "c_prev x S st"
    by (simp_all add: dinv_def)
  have mem: "?m \<in> set (ds_pq st)" using pop by simp
  from ent mem obtain d where d: "ds_dist st v = Some (Fin d)" "d \<le> p"
    and dS: "v \<in> set S \<longrightarrow> d < p"
    and dle: "\<forall>s \<in> set S. \<forall>q. ds_dist st s = Some (Fin q) \<longrightarrow> q \<le> p"
    by (fastforce simp: c_ent_def key_def)
  from fresh d have dp: "d = p"
    by (simp add: dist_get_def obj_get_def js_gt_def)
  with dS have vS: "v \<notin> set S" by auto
  have dv: "ds_dist st v = Some (Fin p)" using d dp by simp
  have minv: "p \<le> c" if "reach adj x v c" for c
  proof -
    from reach_settled_or_queued [OF g inv that] vS
    obtain e where "e \<in> set (ds_pq st)" "key e \<le> c" by blast
    with min show ?thesis by fastforce
  qed
  have "c_dom adj (v # S) ?st"
    using dom vS dv by (auto simp: c_dom_def)
  moreover have "c_val adj x ?st" using val by (simp add: c_val_def)
  moreover have "c_src x ?st" using src by (simp add: c_src_def)
  moreover have "c_set adj x (v # S) (Some {}) ?st"
    unfolding c_set_def
  proof
    fix s assume s: "s \<in> set (v # S)"
    show "\<exists>d. ds_dist ?st s = Some (Fin d) \<and> (\<forall>c. reach adj x s c \<longrightarrow> d \<le> c) \<and>
            (\<forall>e \<in> done_of adj (v # S) (Some {}) s. \<exists>w du. adj_weight e = Fin w \<and>
                ds_dist ?st (adj_to e) = Some (Fin du) \<and> du \<le> d + w)"
    proof (cases "s = v")
      case True
      with dv minv show ?thesis by (auto simp: done_of_def)
    next
      case False
      with s have "s \<in> set S" by simp
      with cset False show ?thesis by (simp add: c_set_def done_of_def)
    qed
  qed
  moreover have "c_ord (v # S) ?st"
    using dle dv by (auto simp: c_ord_def)
  moreover have "c_frs (v # S) ?st"
    unfolding c_frs_def
  proof (intro allI impI)
    fix v' d' assume a: "ds_dist ?st v' = Some (Fin d')" "v' \<notin> set (v # S)"
    with frs have "\<lparr> item_node = v', item_priority = Fin d' \<rparr> \<in> set (ds_pq st)"
      by (simp add: c_frs_def)
    with a pop show "\<lparr> item_node = v', item_priority = Fin d' \<rparr> \<in> set (ds_pq ?st)"
      by auto
  qed
  moreover have "c_ent (v # S) ?st"
    unfolding c_ent_def
  proof
    fix e assume e: "e \<in> set (ds_pq ?st)"
    then have e1: "e \<in> set pq1" by simp
    with pop have e0: "e \<in> set (ds_pq st)" by simp
    from ent e0 obtain de where de: "ds_dist st (item_node e) = Some (Fin de)" "de \<le> key e"
      "item_node e \<in> set S \<longrightarrow> de < key e"
      "\<forall>s \<in> set S. \<forall>q. ds_dist st s = Some (Fin q) \<longrightarrow> q \<le> key e"
      by (fastforce simp: c_ent_def)
    from min e0 have pe: "p \<le> key e" by simp
    have strict: "de < key e" if "item_node e = v"
    proof -
      from that de dv have "de = p" by simp
      moreover have "key e \<noteq> p"
      proof
        assume "key e = p"
        with fin_item_shape [OF h1(2) e1] that have "e = ?m" by simp
        with e1 notin show False by simp
      qed
      ultimately show ?thesis using pe by simp
    qed
    from de pe dv strict
    show "\<exists>d. ds_dist ?st (item_node e) = Some (Fin d) \<and> d \<le> key e \<and>
            (item_node e \<in> set (v # S) \<longrightarrow> d < key e) \<and>
            (\<forall>s \<in> set (v # S). \<forall>q. ds_dist ?st s = Some (Fin q) \<longrightarrow> q \<le> key e)"
      by auto
  qed
  moreover have "c_heap ?st" using h1 by (simp add: c_heap_def)
  moreover have "c_prev x (v # S) ?st"
    unfolding c_prev_def
  proof (intro allI impI)
    fix v' q assume a: "ds_dist ?st v' = Some (Fin q)" "v' \<noteq> x"
    with prev obtain u where u: "prev_own (ds_prev st) v' = Some (Some u)" "u \<in> set S"
      "v' \<notin> set (dropWhile (\<lambda>s. s \<noteq> u) S)"
      by (fastforce simp: c_prev_def)
    from u(2) vS have "v \<noteq> u" by auto
    with u show "\<exists>u. prev_own (ds_prev ?st) v' = Some (Some u) \<and> u \<in> set (v # S) \<and>
                   v' \<notin> set (dropWhile (\<lambda>s. s \<noteq> u) (v # S))"
      by auto
  qed
  ultimately show ?thesis
    using vS dv by (simp add: dinv_def)
qed

lemma done_of_insert:
  "done_of adj (v # S) (Some (insert e es)) s
     = (if s = v then insert e (done_of adj (v # S) (Some es) s) else done_of adj (v # S) (Some es) s)"
  by (simp add: done_of_def)

lemma relax_step:
  assumes g: "good_graph adj" and inv: "dinv adj x (v # S) (Some es) st"
    and adjv: "adj v = Some l" and el: "e \<in> set l"
  shows "dinv adj x (v # S) (Some (insert e es)) (relax v e st)"
proof -
  define u where "u = adj_to e"
  from inv have dom: "c_dom adj (v # S) st" and val: "c_val adj x st" and src: "c_src x st"
    and cset: "c_set adj x (v # S) (Some es) st" and ord: "c_ord (v # S) st"
    and frs: "c_frs (v # S) st" and ent: "c_ent (v # S) st" and heap: "c_heap st"
    and prev: "c_prev x (v # S) st"
    by (simp_all add: dinv_def)
  from g adjv el obtain w where w: "0 \<le> w" "adj_weight e = Fin w" and ukey: "adj u \<noteq> None"
    unfolding good_graph_def u_def by blast
  from g ukey have uproto: "u \<noteq> ''__proto__''"
    by (auto simp: good_graph_def Object_prototype_keys_def)
  from cset obtain d where d: "ds_dist st v = Some (Fin d)"
    and dmin: "\<forall>c. reach adj x v c \<longrightarrow> d \<le> c"
    by (fastforce simp: c_set_def)
  from val d have rv: "reach adj x v d" by (fastforce simp: c_val_def)
  have arc: "arc adj v u w" using adjv el w by (auto simp: arc_def u_def)
  from reach.step [OF rv arc] have ru: "reach adj x u (d + w)" .
  from reach_nonneg [OF g rv] have d0: "0 \<le> d" .
  from dom ukey obtain du0 where du0: "ds_dist st u = Some du0" by (auto simp: c_dom_def)
  show ?thesis
  proof (cases "js_lt (Fin (d + w)) (dist_get (ds_dist st) u)")
    case False
    then have keep: "relax v e st = st"
      using d w by (intro relax_keeps [where d = d and w = w and v = u]) (simp_all add: u_def)
    from val du0 False obtain du where du: "ds_dist st u = Some (Fin du)" "du \<le> d + w"
      by (cases du0) (auto simp: c_val_def dist_get_def obj_get_def)
    have "c_set adj x (v # S) (Some (insert e es)) st"
      unfolding c_set_def
    proof
      fix s assume "s \<in> set (v # S)"
      with cset obtain ds where ds: "ds_dist st s = Some (Fin ds)"
        "\<forall>c. reach adj x s c \<longrightarrow> ds \<le> c"
        "\<forall>e \<in> done_of adj (v # S) (Some es) s. \<exists>w du. adj_weight e = Fin w \<and>
            ds_dist st (adj_to e) = Some (Fin du) \<and> du \<le> ds + w"
        unfolding c_set_def by blast
      have "\<exists>w' du'. adj_weight e = Fin w' \<and> ds_dist st (adj_to e) = Some (Fin du') \<and> du' \<le> ds + w'"
        if "s = v"
        using that ds(1) d du w by (auto simp: u_def)
      with ds show "\<exists>d. ds_dist st s = Some (Fin d) \<and> (\<forall>c. reach adj x s c \<longrightarrow> d \<le> c) \<and>
            (\<forall>e \<in> done_of adj (v # S) (Some (insert e es)) s. \<exists>w du. adj_weight e = Fin w \<and>
                ds_dist st (adj_to e) = Some (Fin du) \<and> du \<le> d + w)"
        by (auto simp: done_of_insert)
    qed
    with inv keep show ?thesis by (simp add: dinv_def)
  next
    case True
    let ?new = "\<lparr> item_node = u, item_priority = Fin (d + w) \<rparr>"
    let ?st = "\<lparr> ds_dist = (ds_dist st)(u \<mapsto> Fin (d + w)),
                 ds_prev = prev_set u v (ds_prev st),
                 ds_pq = heap_push (ds_pq st) ?new \<rparr>"
    have st': "relax v e st = ?st"
      using d w True uproto by (intro relax_improves) (simp_all add: u_def)
    have old: "d + w < q" if "ds_dist st u = Some (Fin q)" for q
      using True that by (simp add: dist_get_def obj_get_def)
    have uS: "u \<notin> set (v # S)"
    proof
      assume "u \<in> set (v # S)"
      with cset obtain q where "ds_dist st u = Some (Fin q)" "\<forall>c. reach adj x u c \<longrightarrow> q \<le> c"
        by (fastforce simp: c_set_def)
      with old [of q] ru show False by fastforce
    qed
    have ux: "u \<noteq> x"
    proof
      assume "u = x"
      with src old [of 0] d0 w show False by (simp add: c_src_def)
    qed
    from heap have ok: "heap_ok (ds_pq st)" and f: "fin_items (ds_pq st)"
      and di: "distinct (ds_pq st)"
      by (simp_all add: c_heap_def)
    from heap_push_ok [OF ok f, of ?new]
    have push: "heap_ok (ds_pq ?st)" "fin_items (ds_pq ?st)"
      "mset (ds_pq ?st) = add_mset ?new (mset (ds_pq st))"
      by simp_all
    then have pset: "set (ds_pq ?st) = insert ?new (set (ds_pq st))"
      by (metis set_mset_add_mset_insert set_mset_mset)
    have newnot: "?new \<notin> set (ds_pq st)"
    proof
      assume "?new \<in> set (ds_pq st)"
      with ent obtain q where "ds_dist st u = Some (Fin q)" "q \<le> d + w"
        by (fastforce simp: c_ent_def key_def)
      with old [of q] show False by simp
    qed
    have dist_other: "ds_dist ?st k = ds_dist st k" if "k \<noteq> u" for k
      using that by simp
    have prev_other: "prev_own (ds_prev ?st) k = prev_own (ds_prev st) k" if "k \<noteq> u" for k
      using that by (simp add: prev_set_def)
    have prev_u: "prev_own (ds_prev ?st) u = Some (Some v)"
      using uproto by (simp add: prev_set_def)
    have "c_dom adj (v # S) ?st"
      using dom du0 by (auto simp: c_dom_def)
    moreover have "c_val adj x ?st"
      using val ru by (auto simp: c_val_def)
    moreover have "c_src x ?st"
      using src ux prev_other [of x] by (simp add: c_src_def)
    moreover have "c_set adj x (v # S) (Some (insert e es)) ?st"
      unfolding c_set_def
    proof
      fix s assume sS: "s \<in> set (v # S)"
      with uS have su: "s \<noteq> u" by auto
      from sS cset obtain ds where ds: "ds_dist st s = Some (Fin ds)"
        "\<forall>c. reach adj x s c \<longrightarrow> ds \<le> c"
        "\<forall>e \<in> done_of adj (v # S) (Some es) s. \<exists>w du. adj_weight e = Fin w \<and>
            ds_dist st (adj_to e) = Some (Fin du) \<and> du \<le> ds + w"
        unfolding c_set_def by blast
      have one: "\<exists>w' du'. adj_weight e' = Fin w' \<and> ds_dist ?st (adj_to e') = Some (Fin du')
                   \<and> du' \<le> ds + w'"
        if "e' \<in> done_of adj (v # S) (Some es) s" for e'
      proof -
        from ds(3) that obtain w' du' where a: "adj_weight e' = Fin w'"
          "ds_dist st (adj_to e') = Some (Fin du')" "du' \<le> ds + w'"
          by blast
        show ?thesis
        proof (cases "adj_to e' = u")
          case True
          with a old [of du'] show ?thesis by auto
        next
          case False
          with a show ?thesis by auto
        qed
      qed
      have new: "\<exists>w' du'. adj_weight e = Fin w' \<and> ds_dist ?st (adj_to e) = Some (Fin du')
                   \<and> du' \<le> ds + w'"
        if "s = v"
        using that ds(1) d w by (auto simp: u_def)
      from ds su one new
      show "\<exists>d. ds_dist ?st s = Some (Fin d) \<and> (\<forall>c. reach adj x s c \<longrightarrow> d \<le> c) \<and>
            (\<forall>e \<in> done_of adj (v # S) (Some (insert e es)) s. \<exists>w du. adj_weight e = Fin w \<and>
                ds_dist ?st (adj_to e) = Some (Fin du) \<and> du \<le> d + w)"
        by (auto simp: done_of_insert)
    qed
    moreover have "c_ord (v # S) ?st"
      using ord uS by (auto simp: c_ord_def)
    moreover have "c_frs (v # S) ?st"
      unfolding c_frs_def
    proof (intro allI impI)
      fix v' d' assume a: "ds_dist ?st v' = Some (Fin d')" "v' \<notin> set (v # S)"
      show "\<lparr> item_node = v', item_priority = Fin d' \<rparr> \<in> set (ds_pq ?st)"
      proof (cases "v' = u")
        case True
        with a pset show ?thesis by simp
      next
        case False
        with a frs have "\<lparr> item_node = v', item_priority = Fin d' \<rparr> \<in> set (ds_pq st)"
          by (simp add: c_frs_def)
        with pset show ?thesis by blast
      qed
    qed
    moreover have "c_ent (v # S) ?st"
      unfolding c_ent_def
    proof
      fix q assume q: "q \<in> set (ds_pq ?st)"
      have settled_le: "ds \<le> d" if "s \<in> set (v # S)" "ds_dist st s = Some (Fin ds)" for s ds
        using ord that d by (auto simp: c_ord_def)
      show "\<exists>d. ds_dist ?st (item_node q) = Some (Fin d) \<and> d \<le> key q \<and>
              (item_node q \<in> set (v # S) \<longrightarrow> d < key q) \<and>
              (\<forall>s \<in> set (v # S). \<forall>qa. ds_dist ?st s = Some (Fin qa) \<longrightarrow> qa \<le> key q)"
      proof (cases "q = ?new")
        case True
        have "\<forall>s \<in> set (v # S). \<forall>qa. ds_dist ?st s = Some (Fin qa) \<longrightarrow> qa \<le> d + w"
        proof (intro ballI allI impI)
          fix s qa assume s: "s \<in> set (v # S)" "ds_dist ?st s = Some (Fin qa)"
          with uS have "ds_dist st s = Some (Fin qa)" by (auto split: if_splits)
          from settled_le [OF s(1) this] w show "qa \<le> d + w" by simp
        qed
        with True uS show ?thesis by (simp add: key_def)
      next
        case False
        with q pset have q0: "q \<in> set (ds_pq st)" by auto
        from ent q0 obtain dq where dq: "ds_dist st (item_node q) = Some (Fin dq)" "dq \<le> key q"
          "item_node q \<in> set (v # S) \<longrightarrow> dq < key q"
          "\<forall>s \<in> set (v # S). \<forall>qa. ds_dist st s = Some (Fin qa) \<longrightarrow> qa \<le> key q"
          unfolding c_ent_def by blast
        have rest: "\<forall>s \<in> set (v # S). \<forall>qa. ds_dist ?st s = Some (Fin qa) \<longrightarrow> qa \<le> key q"
          using dq(4) uS by auto
        show ?thesis
        proof (cases "item_node q = u")
          case True
          with dq old [of dq] uS rest show ?thesis by auto
        next
          case False
          with dq rest show ?thesis by auto
        qed
      qed
    qed
    moreover have "c_heap ?st"
    proof -
      have "distinct (ds_pq ?st)"
        using push(3) di newnot
        by (metis distinct.simps(2) mset_eq_imp_distinct_iff mset.simps(2))
      with push show ?thesis by (simp add: c_heap_def)
    qed
    moreover have "c_prev x (v # S) ?st"
      unfolding c_prev_def
    proof (intro allI impI)
      fix v' q assume a: "ds_dist ?st v' = Some (Fin q)" "v' \<noteq> x"
      show "\<exists>u'. prev_own (ds_prev ?st) v' = Some (Some u') \<and> u' \<in> set (v # S) \<and>
                 v' \<notin> set (dropWhile (\<lambda>s. s \<noteq> u') (v # S))"
      proof (cases "v' = u")
        case True
        with prev_u uS show ?thesis by auto
      next
        case False
        with a prev prev_other [OF False] show ?thesis
          by (auto simp: c_prev_def)
      qed
    qed
    ultimately show ?thesis
      by (simp only: st' dinv_def simp_thms)
  qed
qed

lemma relax_dom:
  assumes "adj_to e \<in> dom (ds_dist st)"
  shows "dom (ds_dist (relax v e st)) = dom (ds_dist st)"
  using assms by (auto simp: relax_def Let_def obj_set_def split: if_splits)

lemma relax_fold:
  assumes g: "good_graph adj" and adjv: "adj v = Some l"
  shows "dinv adj x (v # S) (Some es) st \<Longrightarrow> set ns \<subseteq> set l \<Longrightarrow>
         dinv adj x (v # S) (Some (es \<union> set ns)) (fold (relax v) ns st)
         \<and> dom (ds_dist (fold (relax v) ns st)) = dom (ds_dist st)"
proof (induction ns arbitrary: es st)
  case Nil
  then show ?case by simp
next
  case (Cons e ns)
  from Cons.prems have el: "e \<in> set l" and sub: "set ns \<subseteq> set l" by simp_all
  from relax_step [OF g Cons.prems(1) adjv el]
  have i1: "dinv adj x (v # S) (Some (insert e es)) (relax v e st)" .
  from g adjv el have "adj (adj_to e) \<noteq> None" by (auto simp: good_graph_def)
  with Cons.prems(1) have "adj_to e \<in> dom (ds_dist st)"
    by (auto simp: dinv_def c_dom_def)
  then have d1: "dom (ds_dist (relax v e st)) = dom (ds_dist st)" by (rule relax_dom)
  from Cons.IH [OF i1 sub] d1 show ?case by simp
qed

lemma relax_finish:
  assumes "dinv adj x (v # S) (Some es) st"
    and "es = (case adj v of Some l \<Rightarrow> set l | None \<Rightarrow> {})"
  shows "dinv adj x (v # S) None st"
proof -
  have "done_of adj (v # S) None s = done_of adj (v # S) (Some es) s" for s
    using assms(2) by (simp add: done_of_def)
  with assms(1) show ?thesis by (simp add: dinv_def c_set_def)
qed

lemma reach_key:
  assumes "good_graph adj" "reach adj x v q"
  shows "v = x \<or> adj v \<noteq> None"
  using assms(2)
proof (cases rule: reach.cases)
  case start
  then show ?thesis by simp
next
  case (step u c w)
  with assms(1) show ?thesis by (auto simp: arc_def good_graph_def)
qed

lemma settle_measure:
  assumes "finite D" "v \<in> D" "v \<notin> set S"
  shows "card (D - set (v # S)) < card (D - set S)"
proof -
  have e: "D - set (v # S) = (D - set S) - {v}" by auto
  have "v \<in> D - set S" using assms by simp
  moreover have "finite (D - set S)" using assms(1) by simp
  ultimately have "card ((D - set S) - {v}) < card (D - set S)"
    by (rule card_Diff1_less [rotated])
  then show ?thesis by (simp only: e)
qed

lemma loop_inner:
  assumes g: "good_graph adj" and xp: "x \<notin> set Object_prototype_keys"
    and outer: "\<And>S' st'. card (dom (ds_dist st') - set S') < k \<Longrightarrow> dinv adj x S' None st'
                 \<Longrightarrow> \<exists>r. dijkstra_loop adj t st' = Some (Inr r) \<and> post adj x t r"
  shows "dinv adj x S None st \<Longrightarrow> card (dom (ds_dist st) - set S) = k
         \<Longrightarrow> \<exists>r. dijkstra_loop adj t st = Some (Inr r) \<and> post adj x t r"
proof (induction "length (ds_pq st)" arbitrary: st rule: less_induct)
  case less
  note inv = less.prems(1) and k = less.prems(2)
  show ?case
  proof (cases "ds_pq st = []")
    case True
    then have "dijkstra_loop adj t st = Some (Inr st)"
      by (subst dijkstra_loop.simps) simp
    moreover have "post adj x t st"
      unfolding post_def
    proof (intro exI conjI allI impI)
      show "dinv adj x S None st" by (rule inv)
    next
      fix c assume "reach adj x t c"
      from reach_settled_or_queued [OF g inv this] True show "t \<in> set S" by auto
    qed
    ultimately show ?thesis by blast
  next
    case False
    from inv have heap: "c_heap st" and dom: "c_dom adj S st" and val: "c_val adj x st"
      by (simp_all add: dinv_def)
    from pop_facts [OF heap False] obtain v p pq1 where
      pop: "heap_pop (ds_pq st) = (Some \<lparr> item_node = v, item_priority = Fin p \<rparr>, pq1)"
      and sets: "set (ds_pq st) = insert \<lparr> item_node = v, item_priority = Fin p \<rparr> (set pq1)"
      and notin: "\<lparr> item_node = v, item_priority = Fin p \<rparr> \<notin> set pq1"
      and h1: "heap_ok pq1" "fin_items pq1" "distinct pq1"
      and min: "\<forall>e \<in> set (ds_pq st). p \<le> key e"
      by blast
    let ?st1 = "st\<lparr> ds_pq := pq1 \<rparr>"
    have unfold: "dijkstra_loop adj t st =
        (if js_gt (Fin p) (dist_get (ds_dist st) v) then dijkstra_loop adj t ?st1
         else if v = t then Some (Inr ?st1)
         else case obj_get adj v of
                Own neighbors \<Rightarrow> dijkstra_loop adj t (fold (relax v) neighbors ?st1)
              | Inherited \<Rightarrow> Some (Inl (TypeError ''neighbors is not iterable''))
              | Absent \<Rightarrow> dijkstra_loop adj t ?st1)"
      by (subst dijkstra_loop.simps) (simp add: False pop Let_def)
    show ?thesis
    proof (cases "js_gt (Fin p) (dist_get (ds_dist st) v)")
      case True
      from pop_stale [OF inv sets h1 True] have inv1: "dinv adj x S None ?st1" .
      from heap have "distinct (ds_pq st)" by (simp add: c_heap_def)
      then have "length (ds_pq st) = card (set (ds_pq st))"
        by (simp add: distinct_card)
      also have "\<dots> = Suc (card (set pq1))"
        using sets notin by simp
      also have "\<dots> = Suc (length pq1)"
        using h1(3) by (simp add: distinct_card)
      finally have "length (ds_pq ?st1) < length (ds_pq st)" by simp
      from less.hyps [OF this inv1] k True unfold show ?thesis by simp
    next
      case fresh: False
      from pop_fresh [OF g inv sets notin h1 min fresh]
      have vS: "v \<notin> set S" and dv: "ds_dist st v = Some (Fin p)"
        and inv1: "dinv adj x (v # S) (Some {}) ?st1"
        by simp_all
      show ?thesis
      proof (cases "v = t")
        case True
        have "post adj x t ?st1"
          unfolding post_def using inv1 True by (intro exI [of _ "v # S"] exI [of _ "Some {}"]) simp
        with unfold fresh True show ?thesis by simp
      next
        case False
        from dom have fin: "finite (dom (ds_dist st))" by (simp add: c_dom_def)
        from dv have vd: "v \<in> dom (ds_dist st)" by auto
        from val dv have "reach adj x v p" by (fastforce simp: c_val_def)
        from reach_key [OF g this] have vk: "v = x \<or> adj v \<noteq> None" .
        show ?thesis
        proof (cases "adj v")
          case None
          with vk xp have ab: "obj_get adj v = Absent" by (auto simp: obj_get_def)
          from relax_finish [OF inv1] None have inv2: "dinv adj x (v # S) None ?st1" by simp
          have "card (dom (ds_dist ?st1) - set (v # S)) < k"
            using settle_measure [OF fin vd vS] k by simp
          from outer [OF this inv2] unfold fresh False ab show ?thesis by simp
        next
          case (Some l)
          then have own: "obj_get adj v = Own l" by (simp add: obj_get_def)
          from relax_fold [OF g Some inv1, of l]
          have inv2: "dinv adj x (v # S) (Some (set l)) (fold (relax v) l ?st1)"
            and d2: "dom (ds_dist (fold (relax v) l ?st1)) = dom (ds_dist st)"
            by simp_all
          from relax_finish [OF inv2] Some
          have inv3: "dinv adj x (v # S) None (fold (relax v) l ?st1)" by simp
          have "card (dom (ds_dist (fold (relax v) l ?st1)) - set (v # S)) < k"
            using settle_measure [OF fin vd vS] k d2 by simp
          from outer [OF this inv3] unfold fresh False own show ?thesis by simp
        qed
      qed
    qed
  qed
qed

lemma loop_total:
  assumes g: "good_graph adj" and xp: "x \<notin> set Object_prototype_keys"
  shows "dinv adj x S None st
         \<Longrightarrow> \<exists>r. dijkstra_loop adj t st = Some (Inr r) \<and> post adj x t r"
proof (induction "card (dom (ds_dist st) - set S)" arbitrary: S st rule: less_induct)
  case less
  show ?case
    by (rule loop_inner [OF g xp _ less.prems refl]) (rule less.hyps)
qed

text \<open>The state before the loop, the walk back along the predecessors, and the result.\<close>

lemma dist_init_lookup:
  "fold (\<lambda>n d. obj_set d n PInf) nodes m k
     = (if k \<in> set nodes \<and> k \<noteq> ''__proto__'' then Some PInf else m k)"
  by (induction nodes arbitrary: m) (auto simp: obj_set_def)

lemma obj_set_lookup:
  "obj_set m a v k = (if a = ''__proto__'' then m k else if k = a then Some v else m k)"
  by (simp add: obj_set_def)

lemma prev_init_keeps:
  "prev_own p k = Some None \<Longrightarrow> prev_own (prev_init n p) k = Some None"
  by (simp add: prev_init_def)

lemma prev_init_fold_keeps:
  "prev_own p k = Some None \<Longrightarrow> prev_own (fold prev_init nodes p) k = Some None"
  by (induction nodes arbitrary: p) (simp_all add: prev_init_keeps)

lemma prev_init_lookup:
  "k \<in> set nodes \<Longrightarrow> k \<noteq> ''__proto__'' \<Longrightarrow> prev_own (fold prev_init nodes p) k = Some None"
proof (induction nodes arbitrary: p)
  case Nil
  then show ?case by simp
next
  case (Cons n nodes)
  show ?case
  proof (cases "k = n")
    case True
    with Cons.prems have "prev_own (prev_init n p) k = Some None"
      by (simp add: prev_init_def)
    then show ?thesis by (simp add: prev_init_fold_keeps)
  next
    case False
    with Cons show ?thesis by simp
  qed
qed

lemma heap_push_single: "heap_push [] m = [m]"
  by (simp add: heap_push_def) (subst siftUp.simps, simp)

lemma heap_pop_single: "heap_pop [m] = (Some m, [])"
  by (simp add: heap_pop_def swap_def)

lemma dinv_init:
  assumes g: "good_graph adj" and xn: "x \<in> set nodes" and xp: "x \<noteq> ''__proto__''"
    and keys: "\<forall>k. adj k \<noteq> None \<longrightarrow> k \<in> set nodes"
  shows "dinv adj x [] None (dijkstra_init x nodes)"
proof -
  let ?st = "dijkstra_init x nodes"
  have dist: "ds_dist ?st k = (if k = x then Some (Fin 0)
                else if k \<in> set nodes \<and> k \<noteq> ''__proto__'' then Some PInf else None)" for k
    using xp by (simp add: dijkstra_init_def Let_def obj_set_lookup dist_init_lookup)
  have pq: "ds_pq ?st = [\<lparr> item_node = x, item_priority = Fin 0 \<rparr>]"
    by (simp add: dijkstra_init_def Let_def heap_push_single)
  have prev: "prev_own (ds_prev ?st) x = Some None"
    using xn xp by (simp add: dijkstra_init_def Let_def prev_init_lookup)
  have "dom (ds_dist ?st) \<subseteq> insert x (set nodes)"
    by (auto simp: dist split: if_splits)
  then have fin: "finite (dom (ds_dist ?st))"
    by (rule finite_subset) simp
  have kd: "ds_dist ?st k \<noteq> None" if "adj k \<noteq> None" for k
  proof -
    from that keys have "k \<in> set nodes" by simp
    moreover from that g have "k \<noteq> ''__proto__''"
      by (auto simp: good_graph_def Object_prototype_keys_def)
    ultimately show ?thesis by (simp add: dist)
  qed
  have "c_dom adj [] ?st" using fin kd by (simp add: c_dom_def)
  moreover have "c_val adj x ?st"
    by (auto simp: c_val_def dist reach.start split: if_splits)
  moreover have "c_src x ?st" using prev by (simp add: c_src_def dist)
  moreover have "c_set adj x [] None ?st" by (simp add: c_set_def)
  moreover have "c_ord [] ?st" by (simp add: c_ord_def)
  moreover have "c_frs [] ?st" by (auto simp: c_frs_def dist pq split: if_splits)
  moreover have "c_ent [] ?st" by (simp add: c_ent_def dist pq key_def)
  moreover have "c_heap ?st" by (simp add: c_heap_def pq heap_ok_def fin_items_def)
  moreover have "c_prev x [] ?st" by (auto simp: c_prev_def dist split: if_splits)
  ultimately show ?thesis by (simp add: dinv_def)
qed

lemma suffix_shorter:
  assumes "u \<in> set S" "v \<in> set S" "v \<notin> set (dropWhile (\<lambda>s. s \<noteq> u) S)"
  shows "length (dropWhile (\<lambda>s. s \<noteq> u) S) < length (dropWhile (\<lambda>s. s \<noteq> v) S)"
  using assms
proof (induction S)
  case Nil
  then show ?case by simp
next
  case (Cons a S)
  show ?case
  proof (cases "a = v")
    case True
    with Cons.prems(3) have "a \<noteq> u" by auto
    with True show ?thesis
      using length_dropWhile_le [of "\<lambda>s. s \<noteq> u" S] by (simp add: le_imp_less_Suc)
  next
    case False
    with Cons.prems(2) have vS: "v \<in> set S" by simp
    show ?thesis
    proof (cases "a = u")
      case True
      with Cons.prems(3) vS show ?thesis by simp
    next
      case au: False
      with False Cons show ?thesis by simp
    qed
  qed
qed

lemma path_total:
  assumes inv: "dinv adj x S proc st"
  shows "v \<in> set S \<Longrightarrow> \<exists>p. path_loop (ds_prev st) (Some (PStr v)) acc = Some p"
proof (induction "length (dropWhile (\<lambda>s. s \<noteq> v) S)" arbitrary: v acc rule: less_induct)
  case less
  from inv have src: "c_src x st" and cset: "c_set adj x S proc st" and prev: "c_prev x S st"
    by (simp_all add: dinv_def)
  show ?case
  proof (cases "v = x")
    case True
    with src have "prev_get (ds_prev st) v = None"
      by (simp add: prev_get_def c_src_def)
    then have "path_loop (ds_prev st) (Some (PStr v)) acc = Some (acc @ [PStr v])"
      by (subst path_loop.simps, simp add: String_of_pathval_def)
         (subst path_loop.simps, simp)
    then show ?thesis by blast
  next
    case False
    from cset less.prems obtain d where "ds_dist st v = Some (Fin d)"
      by (fastforce simp: c_set_def)
    with prev False obtain u where u: "prev_own (ds_prev st) v = Some (Some u)" "u \<in> set S"
      "v \<notin> set (dropWhile (\<lambda>s. s \<noteq> u) S)"
      by (fastforce simp: c_prev_def)
    then have "prev_get (ds_prev st) v = Some (PStr u)"
      by (simp add: prev_get_def)
    then have "path_loop (ds_prev st) (Some (PStr v)) acc
                 = path_loop (ds_prev st) (Some (PStr u)) (acc @ [PStr v])"
      by (subst path_loop.simps) (simp add: String_of_pathval_def)
    with less.hyps [OF suffix_shorter [OF u(2) less.prems u(3)] u(2)] show ?thesis
      by simp
  qed
qed

lemma dijkstraPQ_min:
  assumes g: "good_graph adj" and xn: "x \<in> set nodes" and xp: "x \<notin> set Object_prototype_keys"
    and keys: "\<forall>k. adj k \<noteq> None \<longrightarrow> k \<in> set nodes"
    and ne: "x \<noteq> []" "t \<noteq> []"
    and r: "reach adj x t c"
  shows "\<exists>res d. dijkstraPQ (Some adj) keyToId dir x t nodes = Some (Inr res)
           \<and> distance res = Fin d \<and> reach adj x t d \<and> (\<forall>c'. reach adj x t c' \<longrightarrow> d \<le> c')"
proof -
  from xp have xq: "x \<noteq> ''__proto__''" by (auto simp: Object_prototype_keys_def)
  from dinv_init [OF g xn xq keys] have "dinv adj x [] None (dijkstra_init x nodes)" .
  from loop_total [OF g xp this] obtain st where
    loop: "dijkstra_loop adj t (dijkstra_init x nodes) = Some (Inr st)" and "post adj x t st"
    by blast
  then obtain S proc where inv: "dinv adj x S proc st" and tS: "t \<in> set S"
    using r by (auto simp: post_def)
  from inv tS obtain d where d: "ds_dist st t = Some (Fin d)" "\<forall>c'. reach adj x t c' \<longrightarrow> d \<le> c'"
    by (fastforce simp: dinv_def c_set_def)
  from inv d(1) have rd: "reach adj x t d" by (fastforce simp: dinv_def c_val_def)
  from d(1) have dg: "dist_get (ds_dist st) t = Fin d"
    by (simp add: dist_get_def obj_get_def)
  from path_total [OF inv tS] obtain p where
    p: "path_loop (ds_prev st) (Some (PStr t)) [] = Some p" by blast
  have "dijkstraPQ (Some adj) keyToId dir x t nodes
          = Some (Inr \<lparr> distance = Fin d, path = rev p,
                        edgeIds = path_edgeIds keyToId dir (rev p) \<rparr>)"
    using ne loop dg p by (simp add: dijkstraPQ_def)
  with rd d(2) show ?thesis by simp
qed

text \<open>A search from a node to itself stops at the first item popped.\<close>

lemma dijkstraPQ_self:
  assumes xn: "x \<in> set nodes"
  shows "\<exists>res. dijkstraPQ (Some adj) keyToId dir x x nodes = Some (Inr res)"
proof (cases "x = []")
  case True
  then show ?thesis by (simp add: dijkstraPQ_def)
next
  case False
  let ?st = "dijkstra_init x nodes"
  let ?m = "\<lparr> item_node = x, item_priority = Fin 0 \<rparr>"
  have pq: "ds_pq ?st = [?m]"
    by (simp add: dijkstra_init_def Let_def heap_push_single)
  have dg: "dist_get (ds_dist ?st) x = (if x = ''__proto__'' then NaN else Fin 0)"
    by (simp add: dijkstra_init_def Let_def obj_set_lookup dist_get_def obj_get_def
                  dist_init_lookup Object_prototype_keys_def)
  then have fresh: "\<not> js_gt (Fin 0) (dist_get (ds_dist ?st) x)"
    by (simp add: js_gt_def)
  have loop: "dijkstra_loop adj x ?st = Some (Inr (?st\<lparr> ds_pq := [] \<rparr>))"
    by (subst dijkstra_loop.simps) (simp add: pq heap_pop_single Let_def fresh)
  show ?thesis
  proof (cases "x = ''__proto__''")
    case True
    with False loop dg show ?thesis by (simp add: dijkstraPQ_def)
  next
    case np: False
    from xn np have "prev_own (ds_prev ?st) x = Some None"
      by (simp add: dijkstra_init_def Let_def prev_init_lookup)
    then have "prev_get (ds_prev ?st) x = None" by (simp add: prev_get_def)
    then have "path_loop (ds_prev ?st) (Some (PStr x)) [] = Some [PStr x]"
      by (subst path_loop.simps, simp add: String_of_pathval_def)
         (subst path_loop.simps, simp)
    with False loop dg np show ?thesis by (simp add: dijkstraPQ_def)
  qed
qed

subsection \<open>Undirected parses\<close>

lemma addEdge_nodesSet:
  "addEdge w d st f t wt = Inr st' \<Longrightarrow> nodesSet st' = Set_add t (Set_add f (nodesSet st))"
  by (auto simp: addEdge_def Let_def split: sum.splits if_splits)

lemma Set_add_set [simp]: "set (Set_add x xs) = insert x (set xs)"
  by (auto simp: Set_add_def)

lemma adjacency_push_shape:
  assumes "adjacency_push adj k e = Inr adj'"
  shows "(adj k \<noteq> None \<or> k \<notin> set Object_prototype_keys)
         \<and> adj' = adj(k \<mapsto> (case adj k of None \<Rightarrow> [] | Some l \<Rightarrow> l) @ [e])"
  using assms
  by (auto simp: adjacency_push_def obj_get_def split: option.splits if_splits)

lemma adjacency_push_facts:
  assumes p: "adjacency_push adj k e = Inr adj'"
  shows "\<exists>l. adj' k = Some l \<and> e \<in> set l"
    and "\<And>j l. adj j = Some l \<Longrightarrow> \<exists>l'. adj' j = Some l' \<and> set l \<subseteq> set l'"
    and "\<And>j l' e'. adj' j = Some l' \<Longrightarrow> e' \<in> set l'
           \<Longrightarrow> (\<exists>l. adj j = Some l \<and> e' \<in> set l) \<or> (j = k \<and> e' = e)"
    and "\<And>j. adj' j \<noteq> None \<Longrightarrow> adj j \<noteq> None \<or> (j = k \<and> k \<notin> set Object_prototype_keys)"
  using adjacency_push_shape [OF p]
  by (auto split: option.splits if_splits)

lemma addEdge_mirrored:
  assumes a: "addEdge w False st f t wt = Inr st'" and m: "mirrored st"
  shows "mirrored st'"
proof -
  from addEdge_adjacency [OF a] obtain w1 adj1 where
    p1: "adjacency_push (adjacency st) f
           \<lparr> adj_to = t, adj_weight = w1, adj_edgeId = edgeIdCounter st \<rparr> = Inr adj1"
    and p2: "adjacency_push adj1 t
           \<lparr> adj_to = f, adj_weight = w1, adj_edgeId = edgeIdCounter st \<rparr> = Inr (adjacency st')"
    by auto
  let ?ef = "\<lparr> adj_to = t, adj_weight = w1, adj_edgeId = edgeIdCounter st \<rparr>"
  let ?et = "\<lparr> adj_to = f, adj_weight = w1, adj_edgeId = edgeIdCounter st \<rparr>"
  note f1 = adjacency_push_facts [OF p1] and f2 = adjacency_push_facts [OF p2]
  have ns: "set (nodesSet st') = insert t (insert f (set (nodesSet st)))"
    by (simp add: addEdge_nodesSet [OF a])
  have grow: "\<exists>l'. adjacency st' j = Some l' \<and> set l \<subseteq> set l'" if "adjacency st j = Some l" for j l
  proof -
    from f1(2) [OF that] obtain l1 where "adj1 j = Some l1" "set l \<subseteq> set l1" by blast
    moreover from f2(2) [OF this(1)] obtain l2 where "adjacency st' j = Some l2" "set l1 \<subseteq> set l2"
      by blast
    ultimately show ?thesis by blast
  qed
  have ef: "\<exists>l. adjacency st' f = Some l \<and> ?ef \<in> set l"
  proof -
    from f1(1) obtain l1 where "adj1 f = Some l1" "?ef \<in> set l1" by blast
    moreover from f2(2) [OF this(1)] obtain l2 where "adjacency st' f = Some l2" "set l1 \<subseteq> set l2"
      by blast
    ultimately show ?thesis by blast
  qed
  have et: "\<exists>l. adjacency st' t = Some l \<and> ?et \<in> set l"
    using f2(1) .
  have keys: "k \<notin> set Object_prototype_keys \<and> k \<in> set (nodesSet st')" if "adjacency st' k \<noteq> None" for k
  proof -
    from f2(4) [OF that] consider "adj1 k \<noteq> None" | "k = t" "t \<notin> set Object_prototype_keys"
      by blast
    then show ?thesis
    proof cases
      case 1
      from f1(4) [OF this] consider "adjacency st k \<noteq> None" | "k = f" "f \<notin> set Object_prototype_keys"
        by blast
      then show ?thesis
      proof cases
        case 1
        with m show ?thesis by (simp add: mirrored_def ns)
      next
        case 2
        then show ?thesis by (simp add: ns)
      qed
    next
      case 2
      then show ?thesis by (simp add: ns)
    qed
  qed
  have mir: "\<exists>l' e'. adjacency st' (adj_to e) = Some l' \<and> e' \<in> set l' \<and> adj_to e' = k
                       \<and> adj_weight e' = adj_weight e"
    if k: "adjacency st' k = Some l" and e: "e \<in> set l" for k l e
  proof -
    from f2(3) [OF k e] consider l1 where "adj1 k = Some l1" "e \<in> set l1" | "k = t" "e = ?et"
      by blast
    then show ?thesis
    proof cases
      case 1
      from f1(3) [OF this] consider l0 where "adjacency st k = Some l0" "e \<in> set l0"
        | "k = f" "e = ?ef"
        by blast
      then show ?thesis
      proof cases
        case 1
        with m obtain l' e' where o: "adjacency st (adj_to e) = Some l'" "e' \<in> set l'"
          "adj_to e' = k" "adj_weight e' = adj_weight e"
          unfolding mirrored_def by blast
        from grow [OF o(1)] o(2-4) show ?thesis by blast
      next
        case 2
        from et obtain l' where "adjacency st' t = Some l'" "?et \<in> set l'" by blast
        with 2 show ?thesis
          by (intro exI [where x = l'] exI [where x = ?et]) simp
      qed
    next
      case 2
      from ef obtain l' where "adjacency st' f = Some l'" "?ef \<in> set l'" by blast
      with 2 show ?thesis
        by (intro exI [where x = l'] exI [where x = ?ef]) simp
    qed
  qed
  from keys mir show ?thesis
    unfolding mirrored_def by blast
qed

lemma parse_mirrored:
  assumes run: "parse_run rawText opts = Inr st" and und: "\<not> opt_directed opts"
  shows "mirrored st"
  using run
proof (rule parse_run_invariant)
  show "mirrored initial_state"
    by (simp add: mirrored_def initial_state_def)
next
  fix s f t wt s'
  assume "mirrored s" and "addEdge (opt_weighted opts) (opt_directed opts) s f t wt = Inr s'"
  with und show "mirrored s'"
    by (auto intro: addEdge_mirrored)
next
  fix s n
  assume "mirrored s"
  then show "mirrored (s\<lparr> nodesSet := Set_add n (nodesSet s) \<rparr>)"
    by (simp add: mirrored_def)
qed

lemma node_ids_of_parse:
  assumes "parseGraphInput rawText opts = Inr g"
  shows "\<exists>st. parse_run rawText opts = Inr st \<and> gm_adjacency g = adjacency st
           \<and> map node_id (gm_nodesArr g) = nodesSet st \<and> gm_isDirected g = opt_directed opts"
  using assms by (auto simp: parseGraphInput_def o_def split: sum.splits)

text \<open>A walk of a mirrored adjacency object can be walked backwards.\<close>

lemma reach_prepend:
  assumes e: "arc adj x u w" and r: "reach adj u v c"
  shows "reach adj x v (w + c)"
  using r
proof (induction rule: reach.induct)
  case start
  from reach.step [OF reach.start e] show ?case by simp
next
  case (step u' c v' w')
  from reach.step [OF step.IH step.hyps(2)] show ?case by (simp add: add.assoc)
qed

lemma reach_sym:
  assumes sym: "\<And>u v w. arc adj u v w \<Longrightarrow> arc adj v u w" and r: "reach adj x y c"
  shows "reach adj y x c"
  using r
proof (induction rule: reach.induct)
  case start
  show ?case by (rule reach.start)
next
  case (step u c v w)
  from reach_prepend [OF sym [OF step.hyps(2)] step.IH] show ?case by (simp add: add.commute)
qed

lemma reach_endpoint:
  assumes "reach adj x y c" and "x \<noteq> y"
  shows "\<exists>u w. arc adj u y w"
  using assms by (induction rule: reach.induct) auto

lemma shortestPath_symmetric_core:
  assumes g: "good_graph adj"
    and keys: "\<forall>k. adj k \<noteq> None \<longrightarrow> k \<in> set nodes"
    and sym: "\<And>u v w. arc adj u v w \<Longrightarrow> arc adj v u w"
    and xn: "x \<in> set nodes" and yn: "y \<in> set nodes"
    and r: "reach adj x y c"
  shows "\<exists>r1 r2. dijkstraPQ (Some adj) keyToId dir x y nodes = Some (Inr r1)
           \<and> dijkstraPQ (Some adj) keyToId dir y x nodes = Some (Inr r2)
           \<and> distance r1 = distance r2"
proof (cases "x = [] \<or> y = []")
  case True
  then show ?thesis by (auto simp: dijkstraPQ_def)
next
  case ne: False
  show ?thesis
  proof (cases "x = y")
    case True
    with dijkstraPQ_self [OF xn, of adj keyToId dir] show ?thesis by auto
  next
    case False
    from reach_sym [OF sym r] have r': "reach adj y x c" .
    from reach_endpoint [OF r False] obtain u w where "arc adj u y w" by blast
    then have "adj y \<noteq> None" using g by (fastforce simp: arc_def good_graph_def)
    with g have yp: "y \<notin> set Object_prototype_keys" by (simp add: good_graph_def)
    from False have "y \<noteq> x" by simp
    from reach_endpoint [OF r' this] obtain u' w' where "arc adj u' x w'" by blast
    then have "adj x \<noteq> None" using g by (fastforce simp: arc_def good_graph_def)
    with g have xp: "x \<notin> set Object_prototype_keys" by (simp add: good_graph_def)
    from ne have nx: "x \<noteq> []" and ny: "y \<noteq> []" by simp_all
    from dijkstraPQ_min [OF g xn xp keys nx ny r, of keyToId dir] obtain r1 d1 where
      1: "dijkstraPQ (Some adj) keyToId dir x y nodes = Some (Inr r1)" "distance r1 = Fin d1"
         "reach adj x y d1" "\<forall>c'. reach adj x y c' \<longrightarrow> d1 \<le> c'"
      by blast
    from dijkstraPQ_min [OF g yn yp keys ny nx r', of keyToId dir] obtain r2 d2 where
      2: "dijkstraPQ (Some adj) keyToId dir y x nodes = Some (Inr r2)" "distance r2 = Fin d2"
         "reach adj y x d2" "\<forall>c'. reach adj y x c' \<longrightarrow> d2 \<le> c'"
      by blast
    from 1(4) reach_sym [OF sym 2(3)] have "d1 \<le> d2" by blast
    moreover from 2(4) reach_sym [OF sym 1(3)] have "d2 \<le> d1" by blast
    ultimately have "d1 = d2" by simp
    with 1 2 show ?thesis by simp
  qed
qed

text \<open>
  Claim C7, amended: on every undirected model that the parser produces and on which
  every adjacency weight is an integer \<open>w\<close> with \<open>0 \<le> w\<close> and \<open>w * n \<le> 2^53\<close>, \<open>n\<close> the
  number of nodes, for every two nodes \<open>x\<close> and \<open>y\<close> joined by a walk, the searches from
  \<open>x\<close> to \<open>y\<close> and from \<open>y\<close> to \<open>x\<close> both return, and they return the same distance.
\<close>

theorem distance_symmetric_nonneg:
  assumes parse: "parseGraphInput rawText opts = Inr g"
    and und: "\<not> opt_directed opts"
    and nn: "small_weights g"
    and xn: "x \<in> set (map node_id (gm_nodesArr g))"
    and yn: "y \<in> set (map node_id (gm_nodesArr g))"
    and r: "reach (gm_adjacency g) x y c"
  shows "\<exists>r1 r2. shortestPath g x y = Some (Inr r1) \<and> shortestPath g y x = Some (Inr r2)
           \<and> distance r1 = distance r2"
proof -
  from node_ids_of_parse [OF parse] obtain st where run: "parse_run rawText opts = Inr st"
    and adj: "gm_adjacency g = adjacency st" and ids: "map node_id (gm_nodesArr g) = nodesSet st"
    by blast
  from parse_mirrored [OF run und] have m: "mirrored st" .
  let ?adj = "gm_adjacency g" and ?nodes = "map node_id (gm_nodesArr g)"
  have keys: "\<forall>k. ?adj k \<noteq> None \<longrightarrow> k \<in> set ?nodes"
    using m by (simp add: mirrored_def adj ids)
  have w: "\<exists>q. 0 \<le> q \<and> adj_weight e = Fin q" if "?adj k = Some l" "e \<in> set l" for k l e
  proof -
    from that(1) keys have "k \<in> set ?nodes" by simp
    with nn have "case ?adj k of None \<Rightarrow> True
        | Some l \<Rightarrow>
            list_all (\<lambda>e. case adj_weight e of
                             Fin q \<Rightarrow> 0 \<le> q \<and> q = of_int \<lfloor>q\<rfloor>
                                      \<and> q * of_nat (length (gm_nodesArr g)) \<le> 2 ^ 53
                           | _ \<Rightarrow> False) l"
      unfolding small_weights_def list_all_iff by blast
    with that have "case adj_weight e of
                      Fin q \<Rightarrow> 0 \<le> q \<and> q = of_int \<lfloor>q\<rfloor>
                               \<and> q * of_nat (length (gm_nodesArr g)) \<le> 2 ^ 53
                    | _ \<Rightarrow> False"
      by (simp add: list_all_iff)
    then show ?thesis by (cases "adj_weight e") simp_all
  qed
  have tgt: "?adj (adj_to e) \<noteq> None" if "?adj k = Some l" "e \<in> set l" for k l e
    using m that unfolding mirrored_def adj by blast
  have g: "good_graph ?adj"
    unfolding good_graph_def
  proof (intro conjI allI impI)
    fix k assume "?adj k \<noteq> None"
    with m show "k \<notin> set Object_prototype_keys" by (simp add: mirrored_def adj)
  qed (use w tgt in blast)+
  have sym: "arc ?adj v u q" if "arc ?adj u v q" for u v q
  proof -
    from that obtain l e where e: "?adj u = Some l" "e \<in> set l" "adj_to e = v" "adj_weight e = Fin q"
      by (auto simp: arc_def)
    with m obtain l' e' where "?adj (adj_to e) = Some l'" "e' \<in> set l'" "adj_to e' = u"
      "adj_weight e' = adj_weight e"
      unfolding mirrored_def adj by blast
    with e show ?thesis by (auto simp: arc_def)
  qed
  from shortestPath_symmetric_core [OF g keys sym xn yn r] show ?thesis
    by (simp add: shortestPath_def)
qed

theorem distance_symmetric_nonneg_witness:
  "\<not> isl (parseGraphInput (''A B 4'' @ [CHR 0x0A] @ ''B C 1'')
             \<lparr> opt_weighted = True, opt_directed = False, opt_inputMode = ''plain'' \<rparr>)
   \<and> (\<exists>r1 r2.
         shortestPath (projr (parseGraphInput (''A B 4'' @ [CHR 0x0A] @ ''B C 1'')
             \<lparr> opt_weighted = True, opt_directed = False, opt_inputMode = ''plain'' \<rparr>)) ''A'' ''C''
           = Some (Inr r1)
       \<and> shortestPath (projr (parseGraphInput (''A B 4'' @ [CHR 0x0A] @ ''B C 1'')
             \<lparr> opt_weighted = True, opt_directed = False, opt_inputMode = ''plain'' \<rparr>)) ''C'' ''A''
           = Some (Inr r2)
       \<and> distance r1 = distance r2)"
proof -
  let ?o = "\<lparr> opt_weighted = True, opt_directed = False, opt_inputMode = ''plain'' \<rparr>"
  let ?r = "parseGraphInput (''A B 4'' @ [CHR 0x0A] @ ''B C 1'') ?o"
  define g where "g = projr ?r"
  have ok: "\<not> isl ?r" by code_simp
  then have p: "?r = Inr g" by (simp add: g_def)
  have und: "\<not> opt_directed ?o" by simp
  have nn: "small_weights g" unfolding g_def by code_simp
  have a: "''A'' \<in> set (map node_id (gm_nodesArr g))" unfolding g_def by code_simp
  have c: "''C'' \<in> set (map node_id (gm_nodesArr g))" unfolding g_def by code_simp
  have ab: "gm_adjacency g ''A'' = Some [\<lparr> adj_to = ''B'', adj_weight = Fin 4, adj_edgeId = 0 \<rparr>]"
    unfolding g_def by code_simp
  have bc: "gm_adjacency g ''B'' = Some [\<lparr> adj_to = ''A'', adj_weight = Fin 4, adj_edgeId = 0 \<rparr>,
                                         \<lparr> adj_to = ''C'', adj_weight = Fin 1, adj_edgeId = 1 \<rparr>]"
    unfolding g_def by code_simp
  have e1: "arc (gm_adjacency g) ''A'' ''B'' 4"
    unfolding arc_def
    by (rule exI [where x = "[\<lparr> adj_to = ''B'', adj_weight = Fin 4, adj_edgeId = 0 \<rparr>]"],
        rule exI [where x = "\<lparr> adj_to = ''B'', adj_weight = Fin 4, adj_edgeId = 0 \<rparr>"])
       (simp add: ab)
  have e2: "arc (gm_adjacency g) ''B'' ''C'' 1"
    unfolding arc_def
    by (rule exI [where x = "[\<lparr> adj_to = ''A'', adj_weight = Fin 4, adj_edgeId = 0 \<rparr>,
                              \<lparr> adj_to = ''C'', adj_weight = Fin 1, adj_edgeId = 1 \<rparr>]"],
        rule exI [where x = "\<lparr> adj_to = ''C'', adj_weight = Fin 1, adj_edgeId = 1 \<rparr>"])
       (simp add: bc)
  from reach.step [OF reach.step [OF reach.start e1] e2]
  have r: "reach (gm_adjacency g) ''A'' ''C'' (0 + 4 + 1)" .
  from distance_symmetric_nonneg [OF p und nn a c r] ok show ?thesis
    unfolding g_def by blast
qed

end
